theory Spec2Isabelle
  imports Main "HOL-Library.Word" "HOL-Library.List_Lexorder" "HOL-Library.Multiset"
begin

section \<open>Data model\<close>

text \<open>
  The program is \<^verbatim>\<open>tools/make-mo.py\<close>: \<^verbatim>\<open>unescape\<close>, \<^verbatim>\<open>parse_po\<close> and \<^verbatim>\<open>make_mo\<close>.

  A Python \<^verbatim>\<open>str\<close> is a sequence of Unicode code points, so it is a list of naturals
  here (a code point is below \<open>0x110000\<close>); \<^verbatim>\<open>bytes\<close> is a list of 8-bit words.
  Python integers are unbounded; all integers of the program are lengths and offsets,
  so they are naturals. Every exception the source can raise is a value of \<open>error\<close>,
  and a function that can raise returns \<open>error + 'a\<close>.
\<close>

type_synonym pystr = "nat list"
type_synonym byte = "8 word"

datatype error = IndexError | TypeError | UnicodeEncodeError | StructError

text \<open>An ASCII literal as a Python string.\<close>

definition str :: "string \<Rightarrow> pystr" where
  "str s = map of_char s"

abbreviation BACKSLASH :: nat where "BACKSLASH \<equiv> 0x5C"
abbreviation DQUOTE :: nat where "DQUOTE \<equiv> 0x22"
abbreviation LF :: nat where "LF \<equiv> 0x0A"
abbreviation TAB :: nat where "TAB \<equiv> 0x09"
abbreviation CR :: nat where "CR \<equiv> 0x0D"

section \<open>Python string operations used by the source\<close>

text \<open>\<^verbatim>\<open>s[i]\<close> with \<open>i \<ge> 0\<close>: raises IndexError out of range.\<close>

definition getitem :: "'a list \<Rightarrow> nat \<Rightarrow> error + 'a" where
  "getitem s i = (if i < length s then Inr (s ! i) else Inl IndexError)"

text \<open>
  \<^verbatim>\<open>s[start:stop]\<close>: a negative bound counts from the end, and both bounds are clamped
  to the string, so a slice never raises.
\<close>

definition slice :: "'a list \<Rightarrow> int \<Rightarrow> int \<Rightarrow> 'a list" where
  "slice s start stop =
     (let n = int (length s);
          lo = (if start < 0 then max (n + start) 0 else min start n);
          hi = (if stop < 0 then max (n + stop) 0 else min stop n)
      in take (nat (hi - lo)) (drop (nat lo) s))"

definition startswith :: "pystr \<Rightarrow> pystr \<Rightarrow> bool" where
  "startswith s prefix = (take (length prefix) s = prefix)"

definition endswith :: "pystr \<Rightarrow> pystr \<Rightarrow> bool" where
  "endswith s suffix =
     (length suffix \<le> length s \<and> drop (length s - length suffix) s = suffix)"

text \<open>\<^verbatim>\<open>s.rstrip(chars)\<close> removes the trailing characters that occur in \<open>chars\<close>.\<close>

definition rstrip :: "pystr \<Rightarrow> pystr \<Rightarrow> pystr" where
  "rstrip s chars = rev (dropWhile (\<lambda>c. c \<in> set chars) (rev s))"

text \<open>
  \<^verbatim>\<open>str.isspace\<close> on one code point: the white space table of CPython
  (general category Zs, or bidirectional class WS, B or S).
\<close>

definition isspace :: "nat \<Rightarrow> bool" where
  "isspace c \<longleftrightarrow>
     (0x09 \<le> c \<and> c \<le> 0x0D) \<or> (0x1C \<le> c \<and> c \<le> 0x20) \<or> c = 0x85 \<or> c = 0xA0 \<or>
     c = 0x1680 \<or> (0x2000 \<le> c \<and> c \<le> 0x200A) \<or> c = 0x2028 \<or> c = 0x2029 \<or>
     c = 0x202F \<or> c = 0x205F \<or> c = 0x3000"

text \<open>\<^verbatim>\<open>s.strip()\<close> removes white space at both ends.\<close>

definition strip :: "pystr \<Rightarrow> pystr" where
  "strip s = rev (dropWhile isspace (rev (dropWhile isspace s)))"

text \<open>
  \<^verbatim>\<open>s.encode('utf-8')\<close>, strict: a surrogate code point raises UnicodeEncodeError.
  A value from \<open>0x110000\<close> on is no code point of a Python string; the model rejects it
  with the same error.
\<close>

definition utf8_char :: "nat \<Rightarrow> error + byte list" where
  "utf8_char c =
     (if c < 0x80 then Inr [of_nat c]
      else if c < 0x800 then Inr [of_nat (0xC0 + c div 0x40), of_nat (0x80 + c mod 0x40)]
      else if c < 0x10000 then
        (if 0xD800 \<le> c \<and> c \<le> 0xDFFF then Inl UnicodeEncodeError
         else Inr [of_nat (0xE0 + c div 0x1000), of_nat (0x80 + c div 0x40 mod 0x40),
                   of_nat (0x80 + c mod 0x40)])
      else if c < 0x110000 then
        Inr [of_nat (0xF0 + c div 0x40000), of_nat (0x80 + c div 0x1000 mod 0x40),
             of_nat (0x80 + c div 0x40 mod 0x40), of_nat (0x80 + c mod 0x40)]
      else Inl UnicodeEncodeError)"

fun encode :: "pystr \<Rightarrow> error + byte list" where
  "encode [] = Inr []"
| "encode (c # cs) =
     (case utf8_char c of
        Inl e \<Rightarrow> Inl e
      | Inr b \<Rightarrow> (case encode cs of Inl e \<Rightarrow> Inl e | Inr bs \<Rightarrow> Inr (b @ bs)))"

text \<open>
  \<^verbatim>\<open>struct.pack('<I', n)\<close>: four bytes, least significant first; a value that does not
  fit 32 bits raises \<^verbatim>\<open>struct.error\<close>. \<open>pack\<close> is the format \<^verbatim>\<open>'<kI'\<close> on \<open>k\<close> values.
\<close>

definition pack_I :: "nat \<Rightarrow> error + byte list" where
  "pack_I n =
     (if n < 2 ^ 32 then
        Inr [of_nat (n mod 256), of_nat (n div 256 mod 256),
             of_nat (n div 65536 mod 256), of_nat (n div 16777216 mod 256)]
      else Inl StructError)"

fun pack :: "nat list \<Rightarrow> error + byte list" where
  "pack [] = Inr []"
| "pack (n # ns) =
     (case pack_I n of
        Inl e \<Rightarrow> Inl e
      | Inr b \<Rightarrow> (case pack ns of Inl e \<Rightarrow> Inl e | Inr bs \<Rightarrow> Inr (b @ bs)))"

section \<open>unescape\<close>

text \<open>
  The \<^verbatim>\<open>while\<close> loop of \<^verbatim>\<open>unescape\<close>, with its index \<open>i\<close> and its list \<open>result\<close>.
  Each \<^verbatim>\<open>s[...]\<close> is a checked read.
\<close>

function unescape_loop :: "pystr \<Rightarrow> nat \<Rightarrow> pystr \<Rightarrow> error + pystr" where
  "unescape_loop s i result =
     (if i < length s then
        (case getitem s i of
           Inl e \<Rightarrow> Inl e
         | Inr si \<Rightarrow>
             if si = BACKSLASH \<and> i + 1 < length s then
               (case getitem s (i + 1) of
                  Inl e \<Rightarrow> Inl e
                | Inr c \<Rightarrow>
                    unescape_loop s (i + 2)
                      (if c = of_char CHR ''n'' then result @ [LF]
                       else if c = of_char CHR ''t'' then result @ [TAB]
                       else if c = of_char CHR ''r'' then result @ [CR]
                       else if c = DQUOTE then result @ [DQUOTE]
                       else if c = BACKSLASH then result @ [BACKSLASH]
                       else result @ [BACKSLASH, c]))
             else unescape_loop s (i + 1) (result @ [si]))
      else Inr result)"
  by pat_completeness auto
termination
  by (relation "measure (\<lambda>(s, i, result). length s - i)") auto

declare unescape_loop.simps [simp del]

definition unescape :: "pystr \<Rightarrow> error + pystr" where
  "unescape s = unescape_loop s 0 []"

section \<open>parse_po\<close>

text \<open>
  The local variables of \<^verbatim>\<open>parse_po\<close>, which the nested function \<^verbatim>\<open>save\<close> and the loop
  body share. \<open>None\<close> is Python's \<^verbatim>\<open>None\<close>.
\<close>

record parse_state =
  pairs :: "(pystr \<times> pystr) list"
  cur_id :: "pystr option"
  cur_str :: "pystr option"
  in_id :: bool
  in_str :: bool

definition save :: "parse_state \<Rightarrow> parse_state" where
  "save st =
     (case (cur_id st, cur_str st) of
        (Some i, Some s) \<Rightarrow> st\<lparr>pairs := pairs st @ [(i, s)]\<rparr>
      | _ \<Rightarrow> st)"

text \<open>\<^verbatim>\<open>cur += val\<close>: a TypeError when \<open>cur\<close> is \<^verbatim>\<open>None\<close>.\<close>

definition iadd :: "pystr option \<Rightarrow> pystr \<Rightarrow> error + pystr" where
  "iadd cur val = (case cur of None \<Rightarrow> Inl TypeError | Some s \<Rightarrow> Inr (s @ val))"

text \<open>The body of the \<^verbatim>\<open>for\<close> loop, on one line as the file iterator yields it.\<close>

definition parse_line :: "parse_state \<Rightarrow> pystr \<Rightarrow> error + parse_state" where
  "parse_line st raw =
     (let line = rstrip raw [CR, LF] in
      if startswith line (str ''#'') \<or> strip line = [] then Inr st
      else if startswith line (str ''msgid '') then
        (let st1 = save st in
         case unescape (slice line 7 (- 1)) of
           Inl e \<Rightarrow> Inl e
         | Inr u \<Rightarrow>
             Inr (st1\<lparr>cur_id := Some u, cur_str := None, in_id := True, in_str := False\<rparr>))
      else if startswith line (str ''msgstr '') then
        (case unescape (slice line 8 (- 1)) of
           Inl e \<Rightarrow> Inl e
         | Inr u \<Rightarrow> Inr (st\<lparr>cur_str := Some u, in_id := False, in_str := True\<rparr>))
      else if startswith line [DQUOTE] \<and> endswith line [DQUOTE] then
        (case unescape (slice line 1 (- 1)) of
           Inl e \<Rightarrow> Inl e
         | Inr val \<Rightarrow>
             if in_id st then
               (case iadd (cur_id st) val of
                  Inl e \<Rightarrow> Inl e
                | Inr s \<Rightarrow> Inr (st\<lparr>cur_id := Some s\<rparr>))
             else if in_str st then
               (case iadd (cur_str st) val of
                  Inl e \<Rightarrow> Inl e
                | Inr s \<Rightarrow> Inr (st\<lparr>cur_str := Some s\<rparr>))
             else Inr st)
      else Inr st)"

fun parse_lines :: "parse_state \<Rightarrow> pystr list \<Rightarrow> error + parse_state" where
  "parse_lines st [] = Inr st"
| "parse_lines st (raw # rest) =
     (case parse_line st raw of Inl e \<Rightarrow> Inl e | Inr st' \<Rightarrow> parse_lines st' rest)"

definition init_state :: parse_state where
  "init_state = \<lparr>pairs = [], cur_id = None, cur_str = None, in_id = False, in_str = False\<rparr>"

text \<open>
  \<^verbatim>\<open>parse_po\<close> on the lines of the opened file, in order, each with its line end as the
  text file yields it. Opening and decoding the file is outside the model.
\<close>

definition parse_po :: "pystr list \<Rightarrow> error + (pystr \<times> pystr) list" where
  "parse_po lines =
     (case parse_lines init_state lines of
        Inl e \<Rightarrow> Inl e
      | Inr st \<Rightarrow> Inr (pairs (save st)))"

section \<open>make_mo\<close>

text \<open>The condition of the list comprehension: \<^verbatim>\<open>v or k == ''\<close>.\<close>

definition keep :: "pystr \<times> pystr \<Rightarrow> bool" where
  "keep = (\<lambda>(k, v). v \<noteq> [] \<or> k = [])"

text \<open>
  \<^verbatim>\<open>pairs.sort(key=lambda x: x[0].encode('utf-8'))\<close>: the key of every element is
  computed first (which may raise), then the list is sorted by key, stably. The order
  \<open>\<le>\<close> on byte lists is the lexicographic one on unsigned byte values, as Python
  compares \<^verbatim>\<open>bytes\<close>; \<open>sort_key\<close> is the stable insertion sort of the list library.
\<close>

fun encode_keys :: "(pystr \<times> pystr) list \<Rightarrow> error + (byte list \<times> pystr \<times> pystr) list" where
  "encode_keys [] = Inr []"
| "encode_keys (x # xs) =
     (case encode (fst x) of
        Inl e \<Rightarrow> Inl e
      | Inr b \<Rightarrow> (case encode_keys xs of Inl e \<Rightarrow> Inl e | Inr r \<Rightarrow> Inr ((b, x) # r)))"

definition sort_pairs :: "(pystr \<times> pystr) list \<Rightarrow> error + (pystr \<times> pystr) list" where
  "sort_pairs ps =
     (case encode_keys ps of
        Inl e \<Rightarrow> Inl e
      | Inr keyed \<Rightarrow> Inr (map snd (sort_key fst keyed)))"

text \<open>
  The two loops that fill \<^verbatim>\<open>orig_meta\<close> and \<^verbatim>\<open>trans_meta\<close>: the list of strings, the
  running position \<open>pos\<close> and the list built so far.
\<close>

fun meta_loop ::
  "pystr list \<Rightarrow> nat \<Rightarrow> (nat \<times> nat) list \<Rightarrow> error + (nat \<times> nat) list \<times> nat" where
  "meta_loop [] pos meta = Inr (meta, pos)"
| "meta_loop (s # rest) pos meta =
     (case encode s of
        Inl e \<Rightarrow> Inl e
      | Inr b \<Rightarrow> meta_loop rest (pos + length b + 1) (meta @ [(length b, pos)]))"

text \<open>The writing loops; \<open>f\<close> is what has been written to the file so far.\<close>

fun write_table :: "(nat \<times> nat) list \<Rightarrow> byte list \<Rightarrow> error + byte list" where
  "write_table [] f = Inr f"
| "write_table ((len, offset) # rest) f =
     (case pack [len, offset] of
        Inl e \<Rightarrow> Inl e
      | Inr b \<Rightarrow> write_table rest (f @ b))"

fun write_strings :: "pystr list \<Rightarrow> byte list \<Rightarrow> error + byte list" where
  "write_strings [] f = Inr f"
| "write_strings (s # rest) f =
     (case encode s of
        Inl e \<Rightarrow> Inl e
      | Inr b \<Rightarrow> write_strings rest (f @ b @ [0]))"

text \<open>
  \<^verbatim>\<open>make_mo\<close> returns the content of the file it wrote. When it raises, the model
  returns the error only. The summary line it prints is not modelled.
\<close>

definition make_mo :: "(pystr \<times> pystr) list \<Rightarrow> error + byte list" where
  "make_mo pairs0 =
     (case sort_pairs (filter keep pairs0) of
        Inl e \<Rightarrow> Inl e
      | Inr ps \<Rightarrow>
          (let N = length ps;
               O' = 28;
               T = O' + N * 8;
               S = 0;
               H = T + N * 8
           in (case meta_loop (map fst ps) H [] of
                 Inl e \<Rightarrow> Inl e
               | Inr (orig_meta, pos) \<Rightarrow>
                   (case meta_loop (map snd ps) pos [] of
                      Inl e \<Rightarrow> Inl e
                    | Inr (trans_meta, pos') \<Rightarrow>
                        (case pack [0x950412de, 0, N, O', T, S, H] of
                           Inl e \<Rightarrow> Inl e
                         | Inr hdr \<Rightarrow>
                             (case write_table orig_meta hdr of
                                Inl e \<Rightarrow> Inl e
                              | Inr f1 \<Rightarrow>
                                  (case write_table trans_meta f1 of
                                     Inl e \<Rightarrow> Inl e
                                   | Inr f2 \<Rightarrow>
                                       (case write_strings (map fst ps) f2 of
                                          Inl e \<Rightarrow> Inl e
                                        | Inr f3 \<Rightarrow> write_strings (map snd ps) f3))))))))"

section \<open>A reference reader\<close>

text \<open>
  The repository has no reader. This one follows the layout of the specification
  (section 4.2, the GNU MO format): it is the independent reader of the round trip.
  Every read is checked against the size of the file.
\<close>

text \<open>An unsigned 32-bit integer, least significant byte first, at offset \<open>off\<close>.\<close>

definition u32_at :: "byte list \<Rightarrow> nat \<Rightarrow> nat option" where
  "u32_at f off =
     (if off + 4 \<le> length f then
        Some (unat (f ! off) + 256 * unat (f ! (off + 1)) +
              65536 * unat (f ! (off + 2)) + 16777216 * unat (f ! (off + 3)))
      else None)"

text \<open>
  The string of the table entry at position \<open>p\<close>: its length, then its offset; the reader
  checks that a NUL byte follows the string inside the file.
\<close>

definition read_string :: "byte list \<Rightarrow> nat \<Rightarrow> byte list option" where
  "read_string f p =
     (case (u32_at f p, u32_at f (p + 4)) of
        (Some len, Some off) \<Rightarrow>
          if off + len < length f \<and> f ! (off + len) = 0 then Some (take len (drop off f))
          else None
      | _ \<Rightarrow> None)"

text \<open>A strict UTF-8 decoder: no overlong form, no surrogate, nothing above \<open>0x10FFFF\<close>.\<close>

fun utf8_decode :: "byte list \<Rightarrow> pystr option" where
  "utf8_decode [] = Some []"
| "utf8_decode (b0 # bs) =
     (if b0 < 0x80 then map_option ((#) (unat b0)) (utf8_decode bs)
      else if 0xC0 \<le> b0 \<and> b0 < 0xE0 then
        (case bs of
           b1 # r \<Rightarrow>
             (let c = (unat b0 - 0xC0) * 0x40 + (unat b1 - 0x80)
              in if 0x80 \<le> b1 \<and> b1 < 0xC0 \<and> 0x80 \<le> c
                 then map_option ((#) c) (utf8_decode r) else None)
         | _ \<Rightarrow> None)
      else if 0xE0 \<le> b0 \<and> b0 < 0xF0 then
        (case bs of
           b1 # b2 # r \<Rightarrow>
             (let c = (unat b0 - 0xE0) * 0x1000 + (unat b1 - 0x80) * 0x40 + (unat b2 - 0x80)
              in if 0x80 \<le> b1 \<and> b1 < 0xC0 \<and> 0x80 \<le> b2 \<and> b2 < 0xC0 \<and>
                    0x800 \<le> c \<and> \<not> (0xD800 \<le> c \<and> c \<le> 0xDFFF)
                 then map_option ((#) c) (utf8_decode r) else None)
         | _ \<Rightarrow> None)
      else if 0xF0 \<le> b0 \<and> b0 < 0xF8 then
        (case bs of
           b1 # b2 # b3 # r \<Rightarrow>
             (let c = (unat b0 - 0xF0) * 0x40000 + (unat b1 - 0x80) * 0x1000 +
                      (unat b2 - 0x80) * 0x40 + (unat b3 - 0x80)
              in if 0x80 \<le> b1 \<and> b1 < 0xC0 \<and> 0x80 \<le> b2 \<and> b2 < 0xC0 \<and>
                    0x80 \<le> b3 \<and> b3 < 0xC0 \<and> 0x10000 \<le> c \<and> c < 0x110000
                 then map_option ((#) c) (utf8_decode r) else None)
         | _ \<Rightarrow> None)
      else None)"

text \<open>The \<open>n\<close> entries whose table entries start at \<open>ot\<close> and \<open>tt\<close>.\<close>

fun read_entries :: "byte list \<Rightarrow> nat \<Rightarrow> nat \<Rightarrow> nat \<Rightarrow> (pystr \<times> pystr) list option" where
  "read_entries f ot tt 0 = Some []"
| "read_entries f ot tt (Suc n) =
     (case (read_string f ot, read_string f tt) of
        (Some kb, Some vb) \<Rightarrow>
          (case (utf8_decode kb, utf8_decode vb, read_entries f (ot + 8) (tt + 8) n) of
             (Some k, Some v, Some r) \<Rightarrow> Some ((k, v) # r)
           | _ \<Rightarrow> None)
      | _ \<Rightarrow> None)"

text \<open>The reader: magic number and revision, then the entries in table order.\<close>

definition ref_read_mo :: "byte list \<Rightarrow> (pystr \<times> pystr) list option" where
  "ref_read_mo f =
     (case (u32_at f 0, u32_at f 4, u32_at f 8, u32_at f 12, u32_at f 16) of
        (Some magic, Some revision, Some n, Some ot, Some tt) \<Rightarrow>
          if magic = 0x950412de \<and> revision = 0 then read_entries f ot tt n else None
      | _ \<Rightarrow> None)"

text \<open>The lexicographic order on unsigned byte values, written out.\<close>

fun bytes_le :: "byte list \<Rightarrow> byte list \<Rightarrow> bool" where
  "bytes_le [] ys = True"
| "bytes_le (x # xs) [] = False"
| "bytes_le (x # xs) (y # ys) = (unat x < unat y \<or> (unat x = unat y \<and> bytes_le xs ys))"

section \<open>Auxiliary functions of the proofs\<close>

text \<open>What \<^verbatim>\<open>unescape\<close> appends for the character \<open>c\<close> after a backslash.\<close>

definition escape_value :: "nat \<Rightarrow> pystr" where
  "escape_value c =
     (if c = of_char CHR ''n'' then [LF]
      else if c = of_char CHR ''t'' then [TAB]
      else if c = of_char CHR ''r'' then [CR]
      else if c = DQUOTE then [DQUOTE]
      else if c = BACKSLASH then [BACKSLASH]
      else [BACKSLASH, c])"

text \<open>The loop of \<^verbatim>\<open>unescape\<close> as a recursion on the rest of the string.\<close>

fun unescape_list :: "pystr \<Rightarrow> pystr" where
  "unescape_list [] = []"
| "unescape_list [c] = [c]"
| "unescape_list (c # d # rest) =
     (if c = BACKSLASH then escape_value d @ unescape_list rest
      else c # unescape_list (d # rest))"

text \<open>
  \<open>dangling s\<close>: the scan of \<open>s\<close> ends on a backslash that has no character after it.
  \<open>trailing_backslashes s\<close> counts the backslashes at the end of \<open>s\<close>.
\<close>

fun dangling :: "pystr \<Rightarrow> bool" where
  "dangling [] = False"
| "dangling [c] = (c = BACKSLASH)"
| "dangling (c # d # rest) = (if c = BACKSLASH then dangling rest else dangling (d # rest))"

definition trailing_backslashes :: "pystr \<Rightarrow> nat" where
  "trailing_backslashes s = length (takeWhile (\<lambda>c. c = BACKSLASH) (rev s))"

text \<open>
  The three tests of the loop body of \<^verbatim>\<open>parse_po\<close> on a line as the file yields it:
  an original-string line, a translated-string line, a bare quoted line.
\<close>

definition is_msgid :: "pystr \<Rightarrow> bool" where
  "is_msgid raw = startswith (rstrip raw [CR, LF]) (str ''msgid '')"

definition is_msgstr :: "pystr \<Rightarrow> bool" where
  "is_msgstr raw = startswith (rstrip raw [CR, LF]) (str ''msgstr '')"

definition is_cont :: "pystr \<Rightarrow> bool" where
  "is_cont raw = (startswith (rstrip raw [CR, LF]) [DQUOTE] \<and> endswith (rstrip raw [CR, LF]) [DQUOTE])"

text \<open>
  What holds of the local variables of \<^verbatim>\<open>parse_po\<close> after any number of lines, and the
  two situations inside an entry: the original string is being accumulated and no
  translation was seen (\<open>id_only\<close>); the translation is being accumulated (\<open>complete\<close>).
  \<open>P\<close> is the list of entries saved so far.
\<close>

definition parse_inv :: "parse_state \<Rightarrow> bool" where
  "parse_inv st \<longleftrightarrow>
     (in_id st \<longrightarrow> cur_id st \<noteq> None) \<and> (in_str st \<longrightarrow> cur_str st \<noteq> None) \<and>
     \<not> (in_id st \<and> in_str st)"

definition id_only :: "(pystr \<times> pystr) list \<Rightarrow> parse_state \<Rightarrow> bool" where
  "id_only P st \<longleftrightarrow>
     pairs st = P \<and> cur_id st \<noteq> None \<and> cur_str st = None \<and> in_id st \<and> \<not> in_str st"

definition complete :: "(pystr \<times> pystr) list \<Rightarrow> parse_state \<Rightarrow> bool" where
  "complete P st \<longleftrightarrow>
     pairs st = P \<and> cur_id st \<noteq> None \<and> cur_str st \<noteq> None \<and> \<not> in_id st \<and> in_str st"

text \<open>
  The extraction as the specification words it: everything between the first and the
  last double quote of the line.
\<close>

definition between_quotes :: "pystr \<Rightarrow> pystr" where
  "between_quotes line =
     (let after_first = tl (dropWhile (\<lambda>c. c \<noteq> DQUOTE) line)
      in rev (tl (dropWhile (\<lambda>c. c \<noteq> DQUOTE) (rev after_first))))"

text \<open>The four bytes of \<open>n\<close>, least significant first.\<close>

definition le32 :: "nat \<Rightarrow> byte list" where
  "le32 n = [of_nat (n mod 256), of_nat (n div 256 mod 256),
             of_nat (n div 65536 mod 256), of_nat (n div 16777216 mod 256)]"

text \<open>The encodings of a list of strings, or the first error.\<close>

fun encode_all :: "pystr list \<Rightarrow> error + byte list list" where
  "encode_all [] = Inr []"
| "encode_all (s # ss) =
     (case encode s of
        Inl e \<Rightarrow> Inl e
      | Inr b \<Rightarrow> (case encode_all ss of Inl e \<Rightarrow> Inl e | Inr bs \<Rightarrow> Inr (b # bs)))"

text \<open>The (length, offset) pairs of byte strings laid out one after the other from \<open>pos\<close>.\<close>

fun metas :: "nat \<Rightarrow> byte list list \<Rightarrow> (nat \<times> nat) list" where
  "metas pos [] = []"
| "metas pos (b # bs) = (length b, pos) # metas (pos + length b + 1) bs"

text \<open>A table as bytes; string data as bytes, each string with its NUL; its size.\<close>

definition table_bytes :: "(nat \<times> nat) list \<Rightarrow> byte list" where
  "table_bytes ms = concat (map (\<lambda>(len, off). le32 len @ le32 off) ms)"

definition strdata :: "byte list list \<Rightarrow> byte list" where
  "strdata bs = concat (map (\<lambda>b. b @ [0]) bs)"

definition data_size :: "byte list list \<Rightarrow> nat" where
  "data_size bs = sum_list (map (\<lambda>b. length b + 1) bs)"

text \<open>Every length and offset of a table fits 32 bits.\<close>

definition fits32 :: "(nat \<times> nat) list \<Rightarrow> bool" where
  "fits32 ms = (\<forall>(len, off)\<in>set ms. len < 2 ^ 32 \<and> off < 2 ^ 32)"

text \<open>The offsets \<open>T\<close> and \<open>H\<close> of \<^verbatim>\<open>make_mo\<close> for \<open>N\<close> entries, and the file it writes.\<close>

definition table_T :: "nat \<Rightarrow> nat" where
  "table_T N = 28 + N * 8"

definition data_H :: "nat \<Rightarrow> nat" where
  "data_H N = 28 + N * 8 + N * 8"

definition hdr_bytes :: "nat \<Rightarrow> byte list" where
  "hdr_bytes N =
     le32 0x950412de @ le32 0 @ le32 N @ le32 28 @ le32 (table_T N) @ le32 0 @ le32 (data_H N)"

definition mo_bytes :: "byte list list \<Rightarrow> byte list list \<Rightarrow> byte list" where
  "mo_bytes kbs vbs =
     (let N = length kbs in
      le32 0x950412de @ le32 0 @ le32 N @ le32 28 @ le32 (table_T N) @ le32 0 @ le32 (data_H N) @
      table_bytes (metas (data_H N) kbs) @ table_bytes (metas (data_H N + data_size kbs) vbs) @
      strdata kbs @ strdata vbs)"

text \<open>The example of the specification, and the files of two small catalogs.\<close>

definition example_pairs :: "(pystr \<times> pystr) list" where
  "example_pairs = [(str ''a'', []), (str ''b'', str ''x''), ([], str ''meta'')]"

definition example_file :: "byte list" where
  "example_file =
     [0xde, 0x12, 0x04, 0x95,  0, 0, 0, 0,  2, 0, 0, 0,  28, 0, 0, 0,
      44, 0, 0, 0,  0, 0, 0, 0,  60, 0, 0, 0,
      0, 0, 0, 0,  60, 0, 0, 0,  1, 0, 0, 0,  61, 0, 0, 0,
      4, 0, 0, 0,  63, 0, 0, 0,  1, 0, 0, 0,  68, 0, 0, 0,
      0,  0x62, 0,  0x6d, 0x65, 0x74, 0x61, 0,  0x78, 0]"

definition duplicate_file :: "byte list" where
  "duplicate_file =
     [0xde, 0x12, 0x04, 0x95,  0, 0, 0, 0,  2, 0, 0, 0,  28, 0, 0, 0,
      44, 0, 0, 0,  0, 0, 0, 0,  60, 0, 0, 0,
      1, 0, 0, 0,  60, 0, 0, 0,  1, 0, 0, 0,  62, 0, 0, 0,
      1, 0, 0, 0,  64, 0, 0, 0,  1, 0, 0, 0,  66, 0, 0, 0,
      0x61, 0,  0x62, 0,  0x78, 0,  0x78, 0]"

text \<open>
  A string that \<^verbatim>\<open>encode\<close> accepts: Unicode scalar values only. The byte length of its
  encoding, the size of the file for a list of pairs, and a parser state whose strings
  are all of this kind.
\<close>

definition encodable :: "pystr \<Rightarrow> bool" where
  "encodable s \<longleftrightarrow> (\<forall>c\<in>set s. c < 0x110000 \<and> \<not> (0xD800 \<le> c \<and> c \<le> 0xDFFF))"

definition utf8_length :: "pystr \<Rightarrow> nat" where
  "utf8_length s =
     sum_list (map (\<lambda>c. if c < 0x80 then 1 else if c < 0x800 then 2
                          else if c < 0x10000 then 3 else 4) s)"

definition mo_size :: "(pystr \<times> pystr) list \<Rightarrow> nat" where
  "mo_size ps = 28 + sum_list (map (\<lambda>(k, v). 16 + (utf8_length k + 1) + (utf8_length v + 1)) ps)"

definition state_encodable :: "parse_state \<Rightarrow> bool" where
  "state_encodable st \<longleftrightarrow>
     (\<forall>(k, v)\<in>set (pairs st). encodable k \<and> encodable v) \<and>
     (\<forall>s. cur_id st = Some s \<longrightarrow> encodable s) \<and>
     (\<forall>s. cur_str st = Some s \<longrightarrow> encodable s)"

section \<open>unescape: the loop and its result\<close>

lemma escape_chain:
  "(if c = of_char CHR ''n'' then result @ [LF]
    else if c = of_char CHR ''t'' then result @ [TAB]
    else if c = of_char CHR ''r'' then result @ [CR]
    else if c = DQUOTE then result @ [DQUOTE]
    else if c = BACKSLASH then result @ [BACKSLASH]
    else result @ [BACKSLASH, c]) = result @ escape_value c"
  by (simp add: escape_value_def)

lemma unescape_loop_step2:
  "i + 1 < length s \<Longrightarrow> s ! i = BACKSLASH \<Longrightarrow>
   unescape_loop s i result = unescape_loop s (i + 2) (result @ escape_value (s ! (i + 1)))"
  by (subst unescape_loop.simps, subst escape_chain) (simp add: getitem_def)

lemma unescape_loop_step1:
  "i < length s \<Longrightarrow> \<not> (s ! i = BACKSLASH \<and> i + 1 < length s) \<Longrightarrow>
   unescape_loop s i result = unescape_loop s (i + 1) (result @ [s ! i])"
  by (subst unescape_loop.simps) (auto simp add: getitem_def)

lemma unescape_loop_stop:
  "\<not> i < length s \<Longrightarrow> unescape_loop s i result = Inr result"
  by (subst unescape_loop.simps) simp

lemma unescape_loop_list:
  "unescape_loop s i result = Inr (result @ unescape_list (drop i s))"
proof (induction s i result rule: unescape_loop.induct)
  case (1 s i result)
  show ?case
  proof (cases "i < length s")
    case False
    then show ?thesis by (simp add: unescape_loop_stop)
  next
    case inb: True
    then have d1: "drop i s = s ! i # drop (Suc i) s"
      by (simp add: Cons_nth_drop_Suc)
    show ?thesis
    proof (cases "s ! i = BACKSLASH \<and> i + 1 < length s")
      case True
      then have d2: "drop (Suc i) s = s ! (Suc i) # drop (i + 2) s"
        by (simp add: Cons_nth_drop_Suc)
      have "unescape_loop s (i + 2) (result @ escape_value (s ! (i + 1)))
            = Inr ((result @ escape_value (s ! (i + 1))) @ unescape_list (drop (i + 2) s))"
        using "1.IH"(1)[of "s ! i" "s ! (i + 1)", unfolded escape_chain] inb True
        by (simp add: getitem_def)
      then show ?thesis
        using True by (simp add: unescape_loop_step2 d1 d2)
    next
      case False
      have ih: "unescape_loop s (i + 1) (result @ [s ! i])
            = Inr ((result @ [s ! i]) @ unescape_list (drop (i + 1) s))"
        using "1.IH"(2)[of "s ! i"] inb False
        by (simp add: getitem_def)
      have "unescape_list (drop i s) = s ! i # unescape_list (drop (Suc i) s)"
      proof (cases "drop (Suc i) s")
        case Nil
        then show ?thesis by (simp add: d1)
      next
        case (Cons d rest)
        then have "Suc i < length s" by (cases "Suc i < length s") simp_all
        with False have "s ! i \<noteq> BACKSLASH" by simp
        then show ?thesis by (simp add: d1 Cons)
      qed
      then show ?thesis
        using inb False ih by (simp add: unescape_loop_step1)
    qed
  qed
qed

lemma unescape_eq: "unescape s = Inr (unescape_list s)"
  by (simp add: unescape_def unescape_loop_list)

lemma trailing_Nil: "trailing_backslashes [] = 0"
  by (simp add: trailing_backslashes_def)

lemma trailing_Cons:
  "trailing_backslashes (x # s) =
     (if \<forall>c\<in>set s. c = BACKSLASH then (if x = BACKSLASH then Suc (length s) else length s)
      else trailing_backslashes s)"
  by (auto simp add: trailing_backslashes_def takeWhile_append1 takeWhile_append2
      takeWhile_eq_all_conv[THEN iffD2] takeWhile_append)

lemma trailing_all:
  "\<forall>c\<in>set s. c = BACKSLASH \<Longrightarrow> trailing_backslashes s = length s"
  by (simp add: trailing_backslashes_def takeWhile_eq_all_conv[THEN iffD2])

lemma dangling_parity: "dangling s \<longleftrightarrow> odd (trailing_backslashes s)"
proof (induction s rule: dangling.induct)
  case 1
  then show ?case by (simp add: trailing_Nil)
next
  case (2 c)
  then show ?case by (simp add: trailing_Cons)
next
  case (3 c d rest)
  show ?case
  proof (cases "\<forall>x\<in>set rest. x = BACKSLASH")
    case True
    then have "trailing_backslashes rest = length rest" by (rule trailing_all)
    with 3 True show ?thesis by (simp add: trailing_Cons)
  next
    case False
    with 3 show ?thesis by (auto simp add: trailing_Cons)
  qed
qed

lemma unescape_list_snoc:
  "\<not> dangling s \<Longrightarrow> unescape_list (s @ [BACKSLASH]) = unescape_list s @ [BACKSLASH]"
  by (induction s rule: dangling.induct) auto

text \<open>
  C9. Escape resolution. \<^verbatim>\<open>unescape\<close> raises on no string. Scanning from the left, a
  backslash followed by \<open>n\<close>, \<open>t\<close>, \<open>r\<close>, a double quote or a backslash becomes LF, TAB,
  CR, a double quote or one backslash; a backslash followed by any other character
  \<open>c\<close> stays, followed by \<open>c\<close>; a character that is no backslash is copied. So an
  octal, hexadecimal or Unicode escape is not interpreted: \<^verbatim>\<open>\x41\<close> and \<^verbatim>\<open>\101\<close> stay
  as they are. The payloads \<^verbatim>\<open>a\tb\<close> and \<^verbatim>\<open>c\nd\<close> give \<open>a\<close>, TAB, \<open>b\<close> and \<open>c\<close>, LF, \<open>d\<close>.
\<close>

theorem unescape_escape_resolution:
  "(\<exists>r. unescape s = Inr r) \<and>
   unescape [] = Inr [] \<and>
   (unescape rest = Inr r \<longrightarrow>
      unescape (BACKSLASH # of_char CHR ''n'' # rest) = Inr (LF # r) \<and>
      unescape (BACKSLASH # of_char CHR ''t'' # rest) = Inr (TAB # r) \<and>
      unescape (BACKSLASH # of_char CHR ''r'' # rest) = Inr (CR # r) \<and>
      unescape (BACKSLASH # DQUOTE # rest) = Inr (DQUOTE # r) \<and>
      unescape (BACKSLASH # BACKSLASH # rest) = Inr (BACKSLASH # r) \<and>
      (c \<notin> {of_char CHR ''n'', of_char CHR ''t'', of_char CHR ''r'', DQUOTE, BACKSLASH} \<longrightarrow>
         unescape (BACKSLASH # c # rest) = Inr (BACKSLASH # c # r)) \<and>
      (c \<noteq> BACKSLASH \<longrightarrow> unescape (c # rest) = Inr (c # r))) \<and>
   unescape (BACKSLASH # str ''x41'') = Inr (BACKSLASH # str ''x41'') \<and>
   unescape (BACKSLASH # str ''101'') = Inr (BACKSLASH # str ''101'') \<and>
   unescape (str ''a'' @ [BACKSLASH] @ str ''tb'') = Inr (str ''a'' @ [TAB] @ str ''b'') \<and>
   unescape (str ''c'' @ [BACKSLASH] @ str ''nd'') = Inr (str ''c'' @ [LF] @ str ''d'')"
proof -
  have step: "c \<noteq> BACKSLASH \<Longrightarrow> unescape_list (c # rest) = c # unescape_list rest"
    by (cases rest) simp_all
  show ?thesis
    by (auto simp add: unescape_eq escape_value_def str_def step)
qed

theorem unescape_escape_resolution_witness:
  "unescape (str ''b'') = Inr (str ''b'') \<and>
   unescape (BACKSLASH # of_char CHR ''t'' # str ''b'') = Inr (TAB # str ''b'') \<and>
   (of_char CHR ''u'' :: nat) \<notin>
      {of_char CHR ''n'', of_char CHR ''t'', of_char CHR ''r'', DQUOTE, BACKSLASH} \<and>
   unescape (BACKSLASH # of_char CHR ''u'' # str ''b'') =
      Inr (BACKSLASH # of_char CHR ''u'' # str ''b'') \<and>
   (of_char CHR ''u'' :: nat) \<noteq> BACKSLASH \<and>
   unescape (of_char CHR ''u'' # str ''b'') = Inr (of_char CHR ''u'' # str ''b'')"
  using unescape_escape_resolution
    [where s = "str ''b''" and rest = "str ''b''" and r = "str ''b''" and c = "of_char CHR ''u''"]
  by (simp add: unescape_eq str_def)

text \<open>
  C10. A lone backslash at the end. \<^verbatim>\<open>unescape\<close> raises on no string and its loop
  terminates on every string. When the string is \<open>p\<close> followed by a backslash and \<open>p\<close>
  ends with an even number of backslashes (so that none of them is left to pair with
  the last one), the result is the result on \<open>p\<close> followed by that backslash.
\<close>

theorem unescape_trailing_backslash:
  "(\<exists>r. unescape s = Inr r) \<and>
   (even (trailing_backslashes p) \<longrightarrow>
      (\<exists>r. unescape p = Inr r \<and> unescape (p @ [BACKSLASH]) = Inr (r @ [BACKSLASH])))"
  by (simp add: unescape_eq unescape_list_snoc dangling_parity)

theorem unescape_trailing_backslash_witness:
  "even (trailing_backslashes (str ''ab'')) \<and>
   unescape (str ''ab'') = Inr (str ''ab'') \<and>
   unescape (str ''ab'' @ [BACKSLASH]) = Inr (str ''ab'' @ [BACKSLASH]) \<and>
   even (trailing_backslashes [BACKSLASH, BACKSLASH]) \<and>
   unescape [BACKSLASH, BACKSLASH] = Inr [BACKSLASH] \<and>
   unescape ([BACKSLASH, BACKSLASH] @ [BACKSLASH]) = Inr [BACKSLASH, BACKSLASH]"
  using unescape_trailing_backslash [where s = "[]" and p = "str ''ab''"]
    unescape_trailing_backslash [where s = "[]" and p = "[BACKSLASH, BACKSLASH]"]
  by (simp add: unescape_eq str_def trailing_backslashes_def escape_value_def)


section \<open>parse_po: lines, states and entries\<close>

lemma slice_to_last: "slice s (int a) (- 1) = drop a (butlast s)"
proof (cases "a \<le> length s")
  case True
  then show ?thesis
    by (cases "length s") (auto simp add: slice_def Let_def butlast_conv_take drop_take min_def max_def nat_diff_distrib')
next
  case False
  then show ?thesis
    by (simp add: slice_def Let_def min_def)
qed

lemma slice_literals:
  "slice s 7 (- 1) = drop 7 (butlast s)"
  "slice s 8 (- 1) = drop 8 (butlast s)"
  "slice s 1 (- 1) = drop 1 (butlast s)"
  using slice_to_last[of s 7] slice_to_last[of s 8] slice_to_last[of s 1] by simp_all

lemma strip_Nil_iff: "strip s = [] \<longleftrightarrow> (\<forall>c\<in>set s. isspace c)"
proof
  assume "strip s = []"
  then have a: "\<forall>x\<in>set (dropWhile isspace s). isspace x"
    by (simp add: strip_def dropWhile_eq_Nil_conv)
  have "dropWhile isspace s = []"
  proof (rule ccontr)
    assume ne: "dropWhile isspace s \<noteq> []"
    then have "\<not> isspace (hd (dropWhile isspace s))" by (rule hd_dropWhile)
    moreover have "hd (dropWhile isspace s) \<in> set (dropWhile isspace s)" using ne by simp
    ultimately show False using a by blast
  qed
  then show "\<forall>c\<in>set s. isspace c" by (simp add: dropWhile_eq_Nil_conv)
next
  assume "\<forall>c\<in>set s. isspace c"
  then show "strip s = []"
    by (auto simp add: strip_def dropWhile_eq_Nil_conv dest: set_dropWhileD)
qed

lemma startswith_Cons: "startswith s (c # p) \<longleftrightarrow> (\<exists>t. s = c # t \<and> startswith t p)"
  by (cases s) (auto simp add: startswith_def)

lemma startswith_Nil: "startswith s []"
  by (simp add: startswith_def)

lemma msgid_not_skipped:
  assumes "startswith line (str ''msgid '')"
  shows "\<not> startswith line (str ''#'')" "strip line \<noteq> []"
  using assms by (auto simp add: str_def startswith_Cons strip_Nil_iff isspace_def)

lemma msgstr_not_skipped:
  assumes "startswith line (str ''msgstr '')"
  shows "\<not> startswith line (str ''#'')" "strip line \<noteq> []" "\<not> startswith line (str ''msgid '')"
  using assms by (auto simp add: str_def startswith_Cons strip_Nil_iff isspace_def)

lemma quoted_not_skipped:
  assumes "startswith line [DQUOTE]"
  shows "\<not> startswith line (str ''#'')" "strip line \<noteq> []" "\<not> startswith line (str ''msgid '')"
    "\<not> startswith line (str ''msgstr '')"
  using assms by (auto simp add: str_def startswith_Cons strip_Nil_iff isspace_def)

lemma parse_line_msgid:
  "is_msgid raw \<Longrightarrow>
   parse_line st raw =
     Inr ((save st)\<lparr>cur_id := Some (unescape_list (drop 7 (butlast (rstrip raw [CR, LF])))),
                   cur_str := None, in_id := True, in_str := False\<rparr>)"
  by (simp add: slice_literals parse_line_def Let_def is_msgid_def msgid_not_skipped unescape_eq)

lemma parse_line_msgstr:
  "is_msgstr raw \<Longrightarrow>
   parse_line st raw =
     Inr (st\<lparr>cur_str := Some (unescape_list (drop 8 (butlast (rstrip raw [CR, LF])))),
             in_id := False, in_str := True\<rparr>)"
  by (simp add: slice_literals parse_line_def Let_def is_msgstr_def msgstr_not_skipped unescape_eq)

lemma parse_line_cont:
  "is_cont raw \<Longrightarrow>
   parse_line st raw =
     (let val = unescape_list (drop 1 (butlast (rstrip raw [CR, LF]))) in
      if in_id st then
        (case cur_id st of None \<Rightarrow> Inl TypeError | Some x \<Rightarrow> Inr (st\<lparr>cur_id := Some (x @ val)\<rparr>))
      else if in_str st then
        (case cur_str st of None \<Rightarrow> Inl TypeError | Some y \<Rightarrow> Inr (st\<lparr>cur_str := Some (y @ val)\<rparr>))
      else Inr st)"
  by (simp add: slice_literals parse_line_def Let_def is_cont_def quoted_not_skipped unescape_eq iadd_def
      split: option.splits)

lemma parse_line_other:
  "\<not> is_msgid raw \<Longrightarrow> \<not> is_msgstr raw \<Longrightarrow> \<not> is_cont raw \<Longrightarrow> parse_line st raw = Inr st"
  by (auto simp add: parse_line_def Let_def is_cont_def is_msgid_def is_msgstr_def)

lemma save_fields [simp]:
  "cur_id (save st) = cur_id st" "cur_str (save st) = cur_str st"
  "in_id (save st) = in_id st" "in_str (save st) = in_str st"
  by (simp_all add: save_def split: option.splits)

lemma save_no_str: "cur_str st = None \<Longrightarrow> save st = st"
  by (simp add: save_def split: option.splits)

lemma save_both:
  "cur_id st = Some i \<Longrightarrow> cur_str st = Some s \<Longrightarrow> save st = st\<lparr>pairs := pairs st @ [(i, s)]\<rparr>"
  by (simp add: save_def)

lemma line_cases:
  obtains (msgid) "is_msgid raw" | (msgstr) "is_msgstr raw" "\<not> is_msgid raw"
  | (cont) "is_cont raw" "\<not> is_msgid raw" "\<not> is_msgstr raw"
  | (other) "\<not> is_msgid raw" "\<not> is_msgstr raw" "\<not> is_cont raw"
  by blast

lemma parse_line_inv:
  assumes "parse_inv st"
  shows "\<exists>st'. parse_line st raw = Inr st' \<and> parse_inv st'"
proof (cases raw rule: line_cases)
  case msgid
  then show ?thesis by (simp add: parse_line_msgid parse_inv_def)
next
  case msgstr
  then show ?thesis using assms by (simp add: parse_line_msgstr parse_inv_def)
next
  case cont
  then show ?thesis using assms
    by (auto simp add: parse_line_cont parse_inv_def Let_def)
next
  case other
  then show ?thesis using assms by (simp add: parse_line_other)
qed

lemma parse_lines_inv:
  "parse_inv st \<Longrightarrow> \<exists>st'. parse_lines st ls = Inr st' \<and> parse_inv st'"
proof (induction ls arbitrary: st)
  case Nil
  then show ?case by simp
next
  case (Cons raw ls)
  from parse_line_inv[OF Cons.prems, of raw] obtain st1
    where s1: "parse_line st raw = Inr st1" "parse_inv st1" by blast
  from Cons.IH[OF s1(2)] s1(1) show ?case by simp
qed

lemma init_inv: "parse_inv init_state"
  by (simp add: parse_inv_def init_state_def)

lemma parse_lines_append:
  "parse_lines st (xs @ ys) =
     (case parse_lines st xs of Inl e \<Rightarrow> Inl e | Inr st' \<Rightarrow> parse_lines st' ys)"
  by (induction xs arbitrary: st) (auto split: sum.splits)

lemma parse_po_total: "\<exists>r. parse_po ls = Inr r"
  using parse_lines_inv[OF init_inv, of ls] by (auto simp add: parse_po_def)

lemma id_only_step:
  assumes "id_only P st" "\<not> is_msgid raw" "\<not> is_msgstr raw"
  shows "\<exists>st'. parse_line st raw = Inr st' \<and> id_only P st'"
proof (cases "is_cont raw")
  case True
  then show ?thesis using assms by (auto simp add: parse_line_cont id_only_def Let_def)
next
  case False
  then show ?thesis using assms by (simp add: parse_line_other)
qed

lemma id_only_steps:
  "id_only P st \<Longrightarrow> \<forall>m\<in>set mid. \<not> is_msgid m \<and> \<not> is_msgstr m \<Longrightarrow>
   \<exists>st'. parse_lines st mid = Inr st' \<and> id_only P st'"
proof (induction mid arbitrary: st)
  case Nil
  then show ?case by simp
next
  case (Cons raw mid)
  from id_only_step[OF Cons.prems(1), of raw] Cons.prems(2) obtain st1
    where s1: "parse_line st raw = Inr st1" "id_only P st1" by auto
  from Cons.IH[OF s1(2)] Cons.prems(2) s1(1) show ?case by simp
qed

lemma complete_step:
  assumes "complete P st" "\<not> is_msgid raw"
  shows "\<exists>st'. parse_line st raw = Inr st' \<and> complete P st' \<and> cur_id st' = cur_id st"
proof (cases raw rule: line_cases)
  case msgid
  then show ?thesis using assms by simp
next
  case msgstr
  then show ?thesis using assms by (simp add: parse_line_msgstr complete_def)
next
  case cont
  then show ?thesis using assms by (auto simp add: parse_line_cont complete_def Let_def)
next
  case other
  then show ?thesis using assms by (simp add: parse_line_other)
qed

lemma complete_steps:
  "complete P st \<Longrightarrow> \<forall>m\<in>set mid. \<not> is_msgid m \<Longrightarrow>
   \<exists>st'. parse_lines st mid = Inr st' \<and> complete P st' \<and> cur_id st' = cur_id st"
proof (induction mid arbitrary: st)
  case Nil
  then show ?case by simp
next
  case (Cons raw mid)
  from complete_step[OF Cons.prems(1), of raw] Cons.prems(2) obtain st1
    where s1: "parse_line st raw = Inr st1" "complete P st1" "cur_id st1 = cur_id st" by auto
  from Cons.IH[OF s1(2)] Cons.prems(2) s1(1) s1(3) show ?case by simp
qed

lemma id_only_after_msgid:
  "is_msgid raw \<Longrightarrow> parse_line st raw = Inr st' \<Longrightarrow> id_only (pairs (save st)) st'"
  by (auto simp add: parse_line_msgid id_only_def)

lemma msgid_from_id_only:
  assumes "id_only P st" "pairs (save st0) = P" "is_msgid raw"
  shows "parse_line st raw = parse_line st0 raw"
proof -
  have "save st = st" using assms(1) by (simp add: save_no_str id_only_def)
  then show ?thesis
    using assms by (simp add: parse_line_msgid id_only_def)
qed

lemma orphan_msgid_lines:
  assumes "is_msgid l" "\<forall>m\<in>set mid. \<not> is_msgid m \<and> \<not> is_msgstr m"
    and "rest = [] \<or> is_msgid (hd rest)"
  shows "parse_po (pre @ l # mid @ rest) = parse_po (pre @ rest)"
proof -
  from parse_lines_inv[OF init_inv, of pre] obtain st0
    where st0: "parse_lines init_state pre = Inr st0" by blast
  from parse_line_inv obtain st1 where st1: "parse_line st0 l = Inr st1"
    using parse_line_msgid[OF assms(1)] by blast
  have io1: "id_only (pairs (save st0)) st1"
    using id_only_after_msgid[OF assms(1) st1] .
  from id_only_steps[OF io1 assms(2)] obtain st2
    where st2: "parse_lines st1 mid = Inr st2" "id_only (pairs (save st0)) st2" by blast
  have run: "parse_lines init_state (pre @ l # mid @ rest) = parse_lines st2 rest"
    using st0 st1 st2 by (simp add: parse_lines_append)
  have run0: "parse_lines init_state (pre @ rest) = parse_lines st0 rest"
    using st0 by (simp add: parse_lines_append)
  show ?thesis
  proof (cases rest)
    case Nil
    have "pairs (save st2) = pairs (save st0)"
      using st2(2) by (simp add: id_only_def save_no_str)
    then show ?thesis using run run0 Nil by (simp add: parse_po_def)
  next
    case (Cons r rest')
    with assms(3) have "is_msgid r" by simp
    from msgid_from_id_only[OF st2(2) refl this]
    have "parse_lines st2 rest = parse_lines st0 rest" using Cons by simp
    then show ?thesis using run run0 by (simp add: parse_po_def)
  qed
qed

lemma complete_entry_saved:
  assumes "is_msgid l" "\<forall>m\<in>set mid1. \<not> is_msgid m \<and> \<not> is_msgstr m" "is_msgstr t"
    and "\<forall>m\<in>set mid2. \<not> is_msgid m"
  shows "\<exists>r i s. parse_po pre = Inr r \<and>
           parse_po (pre @ l # mid1 @ t # mid2) = Inr (r @ [(i, s)])"
proof -
  from parse_lines_inv[OF init_inv, of pre] obtain st0
    where st0: "parse_lines init_state pre = Inr st0" by blast
  obtain st1 where st1: "parse_line st0 l = Inr st1"
    using parse_line_msgid[OF assms(1)] by blast
  have io1: "id_only (pairs (save st0)) st1"
    using id_only_after_msgid[OF assms(1) st1] .
  from id_only_steps[OF io1 assms(2)] obtain st2
    where st2: "parse_lines st1 mid1 = Inr st2" "id_only (pairs (save st0)) st2" by blast
  obtain st3 where st3: "parse_line st2 t = Inr st3" "complete (pairs (save st0)) st3"
    using st2(2) by (simp add: parse_line_msgstr[OF assms(3)] id_only_def complete_def)
  from complete_steps[OF st3(2) assms(4)] obtain st4
    where st4: "parse_lines st3 mid2 = Inr st4" "complete (pairs (save st0)) st4" by blast
  have run: "parse_lines init_state (pre @ l # mid1 @ t # mid2) = Inr st4"
    using st0 st1 st2 st3 st4 by (simp add: parse_lines_append)
  from st4(2) obtain i s where "cur_id st4 = Some i" "cur_str st4 = Some s"
    "pairs st4 = pairs (save st0)" by (auto simp add: complete_def)
  then have "pairs (save st4) = pairs (save st0) @ [(i, s)]" by (simp add: save_both)
  then show ?thesis using run st0 by (simp add: parse_po_def)
qed

lemma between_quotes_msgid:
  "between_quotes (str ''msgid '' @ DQUOTE # body @ [DQUOTE]) = body"
  by (simp add: between_quotes_def str_def)

lemma between_quotes_msgstr:
  "between_quotes (str ''msgstr '' @ DQUOTE # body @ [DQUOTE]) = body"
  by (simp add: between_quotes_def str_def)

lemma startswith_append: "startswith (p @ s) p"
  by (simp add: startswith_def)

lemmas parse_eval =
  parse_po_def parse_line_def Let_def startswith_def endswith_def rstrip_def strip_def
  isspace_def str_def unescape_eq slice_literals init_state_def save_def iadd_def escape_value_def

text \<open>
  C6, as amended. On a line that starts with the keyword \<^verbatim>\<open>msgid\<close> and a space, the
  parser takes the characters from index 7 up to, not including, the last character
  of the line (line end removed) and unescapes them; with \<^verbatim>\<open>msgstr\<close>, from index 8.
  It removes no white space. When exactly one space separates the keyword from the
  opening quote and the closing quote is the last character of the line, that is
  everything between the first and the last quote of the line.
\<close>

theorem keyword_payload_extraction:
  "(is_msgid raw \<longrightarrow>
      (\<exists>u. unescape (drop 7 (butlast (rstrip raw [CR, LF]))) = Inr u \<and>
           parse_line st raw =
             Inr ((save st)\<lparr>cur_id := Some u, cur_str := None, in_id := True, in_str := False\<rparr>))) \<and>
   (is_msgstr raw \<longrightarrow>
      (\<exists>u. unescape (drop 8 (butlast (rstrip raw [CR, LF]))) = Inr u \<and>
           parse_line st raw = Inr (st\<lparr>cur_str := Some u, in_id := False, in_str := True\<rparr>))) \<and>
   (rstrip raw [CR, LF] = str ''msgid '' @ DQUOTE # body @ [DQUOTE] \<longrightarrow>
      between_quotes (rstrip raw [CR, LF]) = body \<and>
      (\<exists>u. unescape body = Inr u \<and>
           parse_line st raw =
             Inr ((save st)\<lparr>cur_id := Some u, cur_str := None, in_id := True, in_str := False\<rparr>))) \<and>
   (rstrip raw [CR, LF] = str ''msgstr '' @ DQUOTE # body @ [DQUOTE] \<longrightarrow>
      between_quotes (rstrip raw [CR, LF]) = body \<and>
      (\<exists>u. unescape body = Inr u \<and>
           parse_line st raw = Inr (st\<lparr>cur_str := Some u, in_id := False, in_str := True\<rparr>)))"
proof -
  have a: "rstrip raw [CR, LF] = str ''msgid '' @ DQUOTE # body @ [DQUOTE] \<Longrightarrow>
        is_msgid raw \<and> drop 7 (butlast (rstrip raw [CR, LF])) = body"
    by (simp add: is_msgid_def startswith_append) (simp add: str_def butlast_append)
  have b: "rstrip raw [CR, LF] = str ''msgstr '' @ DQUOTE # body @ [DQUOTE] \<Longrightarrow>
        is_msgstr raw \<and> drop 8 (butlast (rstrip raw [CR, LF])) = body"
    by (simp add: is_msgstr_def startswith_append) (simp add: str_def butlast_append)
  show ?thesis
    using a b
    by (auto simp add: parse_line_msgid parse_line_msgstr unescape_eq between_quotes_msgid
        between_quotes_msgstr)
qed

theorem keyword_payload_extraction_witness:
  "is_msgid (str ''msgid '' @ [DQUOTE] @ str ''abc'' @ [DQUOTE, LF]) \<and>
   is_msgstr (str ''msgstr '' @ [DQUOTE] @ str ''abc'' @ [DQUOTE, LF]) \<and>
   rstrip (str ''msgid '' @ [DQUOTE] @ str ''abc'' @ [DQUOTE, LF]) [CR, LF] =
     str ''msgid '' @ DQUOTE # str ''abc'' @ [DQUOTE] \<and>
   between_quotes (str ''msgid '' @ DQUOTE # str ''abc'' @ [DQUOTE]) = str ''abc'' \<and>
   parse_line init_state (str ''msgid '' @ [DQUOTE] @ str ''abc'' @ [DQUOTE, LF]) =
     Inr (init_state\<lparr>cur_id := Some (str ''abc''), in_id := True\<rparr>) \<and>
   rstrip (str ''msgstr '' @ [DQUOTE] @ str ''abc'' @ [DQUOTE, LF]) [CR, LF] =
     str ''msgstr '' @ DQUOTE # str ''abc'' @ [DQUOTE] \<and>
   parse_line init_state (str ''msgstr '' @ [DQUOTE] @ str ''abc'' @ [DQUOTE, LF]) =
     Inr (init_state\<lparr>cur_str := Some (str ''abc''), in_str := True\<rparr>)"
  using keyword_payload_extraction
    [where raw = "str ''msgid '' @ [DQUOTE] @ str ''abc'' @ [DQUOTE, LF]"
       and st = init_state and body = "str ''abc''"]
    keyword_payload_extraction
    [where raw = "str ''msgstr '' @ [DQUOTE] @ str ''abc'' @ [DQUOTE, LF]"
       and st = init_state and body = "str ''abc''"]
  by (simp add: is_msgid_def is_msgstr_def startswith_def rstrip_def str_def unescape_eq
      init_state_def save_def between_quotes_def)

text \<open>
  C6 as stated fails. With two spaces after \<^verbatim>\<open>msgid\<close> the stored value starts with the
  opening quote; with a space after the closing quote of a \<^verbatim>\<open>msgstr\<close> line the stored
  value ends with that quote. The text between the quotes is the same in each case.
\<close>

theorem keyword_payload_whitespace_counterexample:
  "between_quotes (str ''msgid  '' @ [DQUOTE] @ str ''abc'' @ [DQUOTE]) = str ''abc'' \<and>
   unescape (str ''abc'') = Inr (str ''abc'') \<and>
   parse_line init_state (str ''msgid  '' @ [DQUOTE] @ str ''abc'' @ [DQUOTE]) =
     Inr (init_state\<lparr>cur_id := Some (DQUOTE # str ''abc''), in_id := True\<rparr>) \<and>
   parse_line init_state (str ''msgid '' @ [DQUOTE] @ str ''abc'' @ [DQUOTE]) =
     Inr (init_state\<lparr>cur_id := Some (str ''abc''), in_id := True\<rparr>) \<and>
   DQUOTE # str ''abc'' \<noteq> str ''abc'' \<and>
   between_quotes (str ''msgstr '' @ [DQUOTE] @ str ''x'' @ [DQUOTE] @ str '' '') = str ''x'' \<and>
   parse_line init_state (str ''msgstr '' @ [DQUOTE] @ str ''x'' @ [DQUOTE] @ str '' '') =
     Inr (init_state\<lparr>cur_str := Some (str ''x'' @ [DQUOTE]), in_str := True\<rparr>) \<and>
   str ''x'' @ [DQUOTE] \<noteq> str ''x''"
  by (simp add: parse_line_def Let_def startswith_def endswith_def rstrip_def strip_def
      isspace_def str_def unescape_eq slice_literals init_state_def save_def between_quotes_def)

text \<open>
  C7. Continuation lines. After any lines \<open>ls\<close>, a line that starts and ends with a
  double quote (line end removed) has its unescaped content, the characters between
  its first and its last character, appended to the original string when that is being
  accumulated, to the translated string when that is, and changes nothing otherwise.
  The content of a quote, a body and a quote is the body. The four lines of the example
  give one entry, \<open>hello world\<close> with \<open>bonjour monde\<close>.
\<close>

theorem continuation_concatenation:
  "(parse_lines init_state ls = Inr st \<longrightarrow>
     (startswith (rstrip raw [CR, LF]) [DQUOTE] \<and> endswith (rstrip raw [CR, LF]) [DQUOTE] \<longrightarrow>
        (\<exists>u. unescape (slice (rstrip raw [CR, LF]) 1 (- 1)) = Inr u \<and>
          (in_id st \<longrightarrow>
             (\<exists>x. cur_id st = Some x \<and> parse_line st raw = Inr (st\<lparr>cur_id := Some (x @ u)\<rparr>))) \<and>
          (in_str st \<longrightarrow> \<not> in_id st \<and>
             (\<exists>y. cur_str st = Some y \<and> parse_line st raw = Inr (st\<lparr>cur_str := Some (y @ u)\<rparr>))) \<and>
          (\<not> in_id st \<and> \<not> in_str st \<longrightarrow> parse_line st raw = Inr st)))) \<and>
   slice (DQUOTE # body @ [DQUOTE]) 1 (- 1) = body \<and>
   parse_po
     [str ''msgid '' @ [DQUOTE] @ str ''hello '' @ [DQUOTE, LF],
      [DQUOTE] @ str ''world'' @ [DQUOTE, LF],
      str ''msgstr '' @ [DQUOTE] @ str ''bonjour '' @ [DQUOTE, LF],
      [DQUOTE] @ str ''monde'' @ [DQUOTE, LF]]
   = Inr [(str ''hello world'', str ''bonjour monde'')]"
proof (intro conjI impI)
  assume run: "parse_lines init_state ls = Inr st"
    and line: "startswith (rstrip raw [CR, LF]) [DQUOTE] \<and> endswith (rstrip raw [CR, LF]) [DQUOTE]"
  from parse_lines_inv[OF init_inv, of ls] run have inv: "parse_inv st" by simp
  have c: "is_cont raw" using line by (simp add: is_cont_def)
  show "\<exists>u. unescape (slice (rstrip raw [CR, LF]) 1 (- 1)) = Inr u \<and>
          (in_id st \<longrightarrow>
             (\<exists>x. cur_id st = Some x \<and> parse_line st raw = Inr (st\<lparr>cur_id := Some (x @ u)\<rparr>))) \<and>
          (in_str st \<longrightarrow> \<not> in_id st \<and>
             (\<exists>y. cur_str st = Some y \<and> parse_line st raw = Inr (st\<lparr>cur_str := Some (y @ u)\<rparr>))) \<and>
          (\<not> in_id st \<and> \<not> in_str st \<longrightarrow> parse_line st raw = Inr st)"
    using inv
    by (auto simp add: parse_line_cont[OF c] unescape_eq parse_inv_def Let_def slice_literals)
next
  show "slice (DQUOTE # body @ [DQUOTE]) 1 (- 1) = body"
    by (simp add: slice_literals butlast_append)
next
  show "parse_po
     [str ''msgid '' @ [DQUOTE] @ str ''hello '' @ [DQUOTE, LF],
      [DQUOTE] @ str ''world'' @ [DQUOTE, LF],
      str ''msgstr '' @ [DQUOTE] @ str ''bonjour '' @ [DQUOTE, LF],
      [DQUOTE] @ str ''monde'' @ [DQUOTE, LF]]
   = Inr [(str ''hello world'', str ''bonjour monde'')]"
    by (simp add: parse_eval)
qed

theorem continuation_concatenation_witness:
  "parse_lines init_state [str ''msgid '' @ [DQUOTE] @ str ''hello '' @ [DQUOTE, LF]] =
     Inr (init_state\<lparr>cur_id := Some (str ''hello ''), in_id := True\<rparr>) \<and>
   startswith (rstrip ([DQUOTE] @ str ''world'' @ [DQUOTE, LF]) [CR, LF]) [DQUOTE] \<and>
   endswith (rstrip ([DQUOTE] @ str ''world'' @ [DQUOTE, LF]) [CR, LF]) [DQUOTE] \<and>
   unescape (slice (rstrip ([DQUOTE] @ str ''world'' @ [DQUOTE, LF]) [CR, LF]) 1 (- 1)) =
     Inr (str ''world'') \<and>
   in_id (init_state\<lparr>cur_id := Some (str ''hello ''), in_id := True\<rparr>) \<and>
   parse_line (init_state\<lparr>cur_id := Some (str ''hello ''), in_id := True\<rparr>)
      ([DQUOTE] @ str ''world'' @ [DQUOTE, LF]) =
     Inr (init_state\<lparr>cur_id := Some (str ''hello world''), in_id := True\<rparr>)"
  using continuation_concatenation
    [where ls = "[str ''msgid '' @ [DQUOTE] @ str ''hello '' @ [DQUOTE, LF]]"
       and st = "init_state\<lparr>cur_id := Some (str ''hello ''), in_id := True\<rparr>"
       and raw = "[DQUOTE] @ str ''world'' @ [DQUOTE, LF]" and body = "str ''world''"]
  by (simp add: parse_eval)

text \<open>
  C8. The finalize rule. \<^verbatim>\<open>parse_po\<close> raises on no input, and its result is what \<^verbatim>\<open>save\<close>
  leaves after the last line. \<^verbatim>\<open>save\<close> appends an entry exactly when both fields are
  set, and a line changes the list of entries only through the \<^verbatim>\<open>save\<close> of an
  original-string line. An original-string line with no translated-string line before
  the next original-string line or the end of the input can be deleted without changing
  the result. An original-string line followed by a translated-string line, with no
  original-string line after it, adds exactly one entry at the end of the input.
\<close>

theorem finalize_rule:
  "(\<exists>r. parse_po ls = Inr r) \<and>
   (parse_lines init_state ls = Inr st \<longrightarrow> parse_po ls = Inr (pairs (save st))) \<and>
   (pairs (save st) \<noteq> pairs st \<longleftrightarrow> cur_id st \<noteq> None \<and> cur_str st \<noteq> None) \<and>
   (cur_id st = Some i \<and> cur_str st = Some s \<longrightarrow> pairs (save st) = pairs st @ [(i, s)]) \<and>
   (parse_line st raw = Inr st' \<longrightarrow>
      pairs st' = pairs st \<or> (is_msgid raw \<and> pairs st' = pairs (save st))) \<and>
   (is_msgid l \<and> (\<forall>m\<in>set mid. \<not> is_msgid m \<and> \<not> is_msgstr m) \<and>
    (rest = [] \<or> is_msgid (hd rest)) \<longrightarrow>
      parse_po (pre @ l # mid @ rest) = parse_po (pre @ rest)) \<and>
   (is_msgid l \<and> (\<forall>m\<in>set mid. \<not> is_msgid m \<and> \<not> is_msgstr m) \<and> is_msgstr t \<and>
    (\<forall>m\<in>set after. \<not> is_msgid m) \<longrightarrow>
      (\<exists>r i s. parse_po pre = Inr r \<and>
         parse_po (pre @ l # mid @ t # after) = Inr (r @ [(i, s)])))"
proof -
  have a: "\<exists>r. parse_po ls = Inr r" by (rule parse_po_total)
  have b: "parse_lines init_state ls = Inr st \<longrightarrow> parse_po ls = Inr (pairs (save st))"
    by (simp add: parse_po_def)
  have c: "pairs (save st) \<noteq> pairs st \<longleftrightarrow> cur_id st \<noteq> None \<and> cur_str st \<noteq> None"
    by (auto simp add: save_def split: option.splits)
  have d: "cur_id st = Some i \<and> cur_str st = Some s \<longrightarrow> pairs (save st) = pairs st @ [(i, s)]"
    by (simp add: save_both)
  have e: "parse_line st raw = Inr st' \<longrightarrow>
      pairs st' = pairs st \<or> (is_msgid raw \<and> pairs st' = pairs (save st))"
  proof (cases raw rule: line_cases)
    case msgid
    then show ?thesis by (auto simp add: parse_line_msgid)
  next
    case msgstr
    then show ?thesis by (auto simp add: parse_line_msgstr)
  next
    case cont
    then show ?thesis
      by (auto simp add: parse_line_cont Let_def split: if_splits option.splits)
  next
    case other
    then show ?thesis by (simp add: parse_line_other)
  qed
  have f: "is_msgid l \<and> (\<forall>m\<in>set mid. \<not> is_msgid m \<and> \<not> is_msgstr m) \<and>
    (rest = [] \<or> is_msgid (hd rest)) \<longrightarrow>
      parse_po (pre @ l # mid @ rest) = parse_po (pre @ rest)"
    using orphan_msgid_lines by blast
  have g: "is_msgid l \<and> (\<forall>m\<in>set mid. \<not> is_msgid m \<and> \<not> is_msgstr m) \<and> is_msgstr t \<and>
    (\<forall>m\<in>set after. \<not> is_msgid m) \<longrightarrow>
      (\<exists>r i s. parse_po pre = Inr r \<and>
         parse_po (pre @ l # mid @ t # after) = Inr (r @ [(i, s)]))"
    using complete_entry_saved by blast
  from a b c d e f g show ?thesis by blast
qed

theorem finalize_rule_witness:
  "parse_lines init_state [str ''msgid '' @ [DQUOTE] @ str ''a'' @ [DQUOTE, LF]] =
     Inr (init_state\<lparr>cur_id := Some (str ''a''), in_id := True\<rparr>) \<and>
   parse_po [str ''msgid '' @ [DQUOTE] @ str ''a'' @ [DQUOTE, LF]] = Inr [] \<and>
   is_msgid (str ''msgid '' @ [DQUOTE] @ str ''a'' @ [DQUOTE, LF]) \<and>
   is_msgstr (str ''msgstr '' @ [DQUOTE] @ str ''x'' @ [DQUOTE, LF]) \<and>
   \<not> is_msgid ([DQUOTE] @ str ''b'' @ [DQUOTE, LF]) \<and>
   \<not> is_msgstr ([DQUOTE] @ str ''b'' @ [DQUOTE, LF]) \<and>
   parse_po
     [str ''msgid '' @ [DQUOTE] @ str ''a'' @ [DQUOTE, LF], [DQUOTE] @ str ''b'' @ [DQUOTE, LF],
      str ''msgid '' @ [DQUOTE] @ str ''a'' @ [DQUOTE, LF]] =
   parse_po [str ''msgid '' @ [DQUOTE] @ str ''a'' @ [DQUOTE, LF]] \<and>
   parse_po
     [str ''msgid '' @ [DQUOTE] @ str ''a'' @ [DQUOTE, LF], [DQUOTE] @ str ''b'' @ [DQUOTE, LF],
      str ''msgstr '' @ [DQUOTE] @ str ''x'' @ [DQUOTE, LF]] =
   Inr [(str ''ab'', str ''x'')]"
  using finalize_rule
    [where ls = "[str ''msgid '' @ [DQUOTE] @ str ''a'' @ [DQUOTE, LF]]"
       and st = "init_state\<lparr>cur_id := Some (str ''a''), in_id := True\<rparr>"
       and i = "str ''a''" and s = "[]"
       and raw = "str ''msgid '' @ [DQUOTE] @ str ''a'' @ [DQUOTE, LF]"
       and st' = "init_state\<lparr>cur_id := Some (str ''a''), in_id := True\<rparr>"
       and l = "str ''msgid '' @ [DQUOTE] @ str ''a'' @ [DQUOTE, LF]"
       and mid = "[DQUOTE # str ''b'' @ [DQUOTE, LF]]"
       and rest = "[str ''msgid '' @ [DQUOTE] @ str ''a'' @ [DQUOTE, LF]]"
       and pre = "[]"
       and t = "str ''msgstr '' @ [DQUOTE] @ str ''x'' @ [DQUOTE, LF]"
       and after = "[]"]
  by (simp add: parse_eval is_msgid_def is_msgstr_def)

section \<open>make_mo: the loops and the bytes written\<close>

lemma pack_I_eq: "pack_I n = (if n < 2 ^ 32 then Inr (le32 n) else Inl StructError)"
  by (simp add: pack_I_def le32_def)

lemma pack2_eq:
  "pack [a, b] = (if a < 2 ^ 32 \<and> b < 2 ^ 32 then Inr (le32 a @ le32 b) else Inl StructError)"
  by (simp add: pack_I_eq)

lemma data_size_simps [simp]:
  "data_size [] = 0" "data_size (b # bs) = length b + 1 + data_size bs"
  "data_size (xs @ ys) = data_size xs + data_size ys"
  by (simp_all add: data_size_def)

lemma strdata_simps [simp]:
  "strdata [] = []" "strdata (b # bs) = b @ 0 # strdata bs"
  "strdata (xs @ ys) = strdata xs @ strdata ys"
  by (simp_all add: strdata_def)

lemma table_bytes_simps [simp]:
  "table_bytes [] = []" "table_bytes ((len, off) # ms) = le32 len @ le32 off @ table_bytes ms"
  "table_bytes (xs @ ys) = table_bytes xs @ table_bytes ys"
  by (simp_all add: table_bytes_def)

lemma fits32_simps [simp]:
  "fits32 []" "fits32 ((len, off) # ms) \<longleftrightarrow> len < 2 ^ 32 \<and> off < 2 ^ 32 \<and> fits32 ms"
  "fits32 (xs @ ys) \<longleftrightarrow> fits32 xs \<and> fits32 ys"
  by (auto simp add: fits32_def)

lemma length_le32 [simp]: "length (le32 n) = 4"
  by (simp add: le32_def)

lemma length_table_bytes [simp]: "length (table_bytes ms) = 8 * length ms"
  by (induction ms) auto

lemma length_strdata [simp]: "length (strdata bs) = data_size bs"
  by (induction bs) auto

lemma length_metas [simp]: "length (metas pos bs) = length bs"
  by (induction bs arbitrary: pos) auto

lemma metas_append: "metas pos (xs @ ys) = metas pos xs @ metas (pos + data_size xs) ys"
  by (induction xs arbitrary: pos) (auto simp add: add.assoc)

lemma meta_loop_eq:
  "meta_loop ss pos meta =
     (case encode_all ss of
        Inl e \<Rightarrow> Inl e
      | Inr bs \<Rightarrow> Inr (meta @ metas pos bs, pos + data_size bs))"
  by (induction ss arbitrary: pos meta) (auto split: sum.splits)

lemma write_table_eq:
  "write_table ms f = (if fits32 ms then Inr (f @ table_bytes ms) else Inl StructError)"
  by (induction ms f rule: write_table.induct) (auto simp add: pack_I_eq)

lemma write_strings_eq:
  "write_strings ss f =
     (case encode_all ss of Inl e \<Rightarrow> Inl e | Inr bs \<Rightarrow> Inr (f @ strdata bs))"
  by (induction ss arbitrary: f) (auto split: sum.splits)

lemma encode_all_iff:
  "encode_all ss = Inr bs \<longleftrightarrow> list_all2 (\<lambda>s b. encode s = Inr b) ss bs"
proof (induction ss arbitrary: bs)
  case Nil
  then show ?case by auto
next
  case (Cons s ss)
  show ?case
    by (cases bs) (auto simp add: Cons.IH[symmetric] split: sum.splits)
qed

lemma encode_all_length: "encode_all ss = Inr bs \<Longrightarrow> length bs = length ss"
  by (simp add: encode_all_iff list_all2_lengthD)

lemma encode_keys_eq:
  "encode_keys ps =
     (case encode_all (map fst ps) of Inl e \<Rightarrow> Inl e | Inr kbs \<Rightarrow> Inr (zip kbs ps))"
  by (induction ps) (auto split: sum.splits)

lemma pack7_eq:
  "pack [a, b, c, d, e, f, g] =
     (if a < 2 ^ 32 \<and> b < 2 ^ 32 \<and> c < 2 ^ 32 \<and> d < 2 ^ 32 \<and> e < 2 ^ 32 \<and> f < 2 ^ 32 \<and> g < 2 ^ 32
      then Inr (le32 a @ le32 b @ le32 c @ le32 d @ le32 e @ le32 f @ le32 g)
      else Inl StructError)"
  by (simp add: pack_I_eq)

lemma make_mo_from_sorted:
  assumes "sort_pairs (filter keep ps0) = Inr qs"
  shows "make_mo ps0 =
     (case encode_all (map fst qs) of
        Inl e \<Rightarrow> Inl e
      | Inr kbs \<Rightarrow>
          (case encode_all (map snd qs) of
             Inl e \<Rightarrow> Inl e
           | Inr vbs \<Rightarrow>
               if data_H (length qs) < 2 ^ 32 \<and>
                  fits32 (metas (data_H (length qs)) kbs) \<and>
                  fits32 (metas (data_H (length qs) + data_size kbs) vbs)
               then Inr (mo_bytes kbs vbs) else Inl StructError))"
proof (cases "encode_all (map fst qs)")
  case (Inl e)
  then show ?thesis using assms by (simp add: make_mo_def meta_loop_eq Let_def)
next
  case kb: (Inr kbs)
  show ?thesis
  proof (cases "encode_all (map snd qs)")
    case (Inl e)
    then show ?thesis using assms kb by (simp add: make_mo_def meta_loop_eq Let_def)
  next
    case vb: (Inr vbs)
    have len: "length kbs = length qs" using encode_all_length[OF kb] by simp
    have small: "data_H (length qs) < (2::nat) ^ 32 \<Longrightarrow>
         length qs < (2::nat) ^ 32 \<and> table_T (length qs) < (2::nat) ^ 32"
      by (simp add: data_H_def table_T_def)
    have fold: "28 + length qs * 8 = table_T (length qs)"
      "table_T (length qs) + length qs * 8 = data_H (length qs)"
      by (simp_all add: data_H_def table_T_def)
    have "make_mo ps0 =
       (case pack [0x950412de, 0, length qs, 28, table_T (length qs), 0, data_H (length qs)] of
          Inl e \<Rightarrow> Inl e
        | Inr hdr \<Rightarrow>
            (case write_table (metas (data_H (length qs)) kbs) hdr of
               Inl e \<Rightarrow> Inl e
             | Inr f1 \<Rightarrow>
                 (case write_table (metas (data_H (length qs) + data_size kbs) vbs) f1 of
                    Inl e \<Rightarrow> Inl e
                  | Inr f2 \<Rightarrow>
                      (case write_strings (map fst qs) f2 of
                         Inl e \<Rightarrow> Inl e
                       | Inr f3 \<Rightarrow> write_strings (map snd qs) f3))))"
      unfolding make_mo_def assms Let_def sum.case fold meta_loop_eq kb vb prod.case append_Nil
      by (rule refl)
    also have "\<dots> =
       (if data_H (length qs) < 2 ^ 32 \<and>
           fits32 (metas (data_H (length qs)) kbs) \<and>
           fits32 (metas (data_H (length qs) + data_size kbs) vbs)
        then Inr (mo_bytes kbs vbs) else Inl StructError)"
      using small
      by (auto simp del: pack.simps
          simp add: pack7_eq write_table_eq write_strings_eq kb vb mo_bytes_def len Let_def)
    finally show ?thesis by (simp add: kb vb)
  qed
qed


section \<open>Reading integers, table entries and strings back\<close>

lemma unat_byte: "unat (of_nat (n mod 256) :: byte) = n mod 256"
  by (simp add: unat_of_nat)

lemma le32_value:
  assumes "(n::nat) < 2 ^ 32"
  shows "n mod 256 + 256 * (n div 256 mod 256) + 65536 * (n div 65536 mod 256) +
         16777216 * (n div 16777216 mod 256) = n"
proof -
  have b: "n div 65536 = n div 256 div 256"
    by (simp add: div_mult2_eq[symmetric])
  have c: "n div 16777216 = n div 65536 div 256"
    by (simp add: div_mult2_eq[symmetric])
  have d: "n div 16777216 mod 256 = n div 16777216" using assms by simp
  have s0: "n = n mod 256 + 256 * (n div 256)" by simp
  have s1: "n div 256 = n div 256 mod 256 + 256 * (n div 65536)"
    unfolding b by simp
  have s2: "n div 65536 = n div 65536 mod 256 + 256 * (n div 16777216)"
    unfolding c by simp
  show ?thesis
    unfolding d using s0 s1 s2 by linarith
qed

lemma u32_at_le32:
  assumes "n < 2 ^ 32" "length pre = p"
  shows "u32_at (pre @ le32 n @ post) p = Some n"
proof -
  have eq: "u32_at (pre @ le32 n @ post) p =
        Some (n mod 256 + 256 * (n div 256 mod 256) + 65536 * (n div 65536 mod 256) +
              16777216 * (n div 16777216 mod 256))"
    using assms(2) by (simp add: u32_at_def nth_append le32_def unat_byte)
  show ?thesis by (simp only: eq le32_value[OF assms(1)])
qed

lemma table_split:
  assumes "i < length ms"
  shows "table_bytes ms =
         table_bytes (take i ms) @ le32 (fst (ms ! i)) @ le32 (snd (ms ! i)) @
         table_bytes (drop (Suc i) ms)"
proof -
  have "ms = take i ms @ (fst (ms ! i), snd (ms ! i)) # drop (Suc i) ms"
    using assms by (simp add: id_take_nth_drop)
  then have "table_bytes ms =
      table_bytes (take i ms @ (fst (ms ! i), snd (ms ! i)) # drop (Suc i) ms)" by simp
  then show ?thesis by (simp del: prod.collapse)
qed

lemma fits32_nth:
  "fits32 ms \<Longrightarrow> i < length ms \<Longrightarrow> fst (ms ! i) < 2 ^ 32 \<and> snd (ms ! i) < 2 ^ 32"
  by (auto simp add: fits32_def dest!: nth_mem)

lemma table_entry:
  assumes "i < length ms" "fits32 ms" "length pre = p"
  shows "u32_at (pre @ table_bytes ms @ post) (p + 8 * i) = Some (fst (ms ! i))"
    and "u32_at (pre @ table_bytes ms @ post) (p + 8 * i + 4) = Some (snd (ms ! i))"
proof -
  let ?A = "pre @ table_bytes (take i ms)"
  have lenA: "length ?A = p + 8 * i" using assms by simp
  have f: "pre @ table_bytes ms @ post =
        ?A @ le32 (fst (ms ! i)) @ (le32 (snd (ms ! i)) @ table_bytes (drop (Suc i) ms) @ post)"
    by (subst table_split[OF assms(1)]) simp
  have g: "pre @ table_bytes ms @ post =
        (?A @ le32 (fst (ms ! i))) @ le32 (snd (ms ! i)) @ (table_bytes (drop (Suc i) ms) @ post)"
    by (subst table_split[OF assms(1)]) simp
  from fits32_nth[OF assms(2,1)] have b: "fst (ms ! i) < 2 ^ 32" "snd (ms ! i) < 2 ^ 32"
    by simp_all
  show "u32_at (pre @ table_bytes ms @ post) (p + 8 * i) = Some (fst (ms ! i))"
    by (subst f) (rule u32_at_le32[OF b(1) lenA])
  have lenB: "length (?A @ le32 (fst (ms ! i))) = p + 8 * i + 4" using assms by simp
  show "u32_at (pre @ table_bytes ms @ post) (p + 8 * i + 4) = Some (snd (ms ! i))"
    by (subst g) (rule u32_at_le32[OF b(2) lenB])
qed

lemma metas_nth:
  "i < length bs \<Longrightarrow> metas pos bs ! i = (length (bs ! i), pos + data_size (take i bs))"
proof (induction bs arbitrary: pos i)
  case Nil
  then show ?case by simp
next
  case (Cons b bs)
  then show ?case by (cases i) (simp_all add: add.assoc)
qed

lemma strdata_split:
  assumes "i < length bs"
  shows "strdata bs = strdata (take i bs) @ bs ! i @ 0 # strdata (drop (Suc i) bs)"
proof -
  have "bs = take i bs @ bs ! i # drop (Suc i) bs"
    using assms by (simp add: id_take_nth_drop)
  then have "strdata bs = strdata (take i bs @ bs ! i # drop (Suc i) bs)" by simp
  then show ?thesis by simp
qed

lemma string_in_file:
  assumes "i < length bs" "length pre = p"
  shows "take (length (bs ! i)) (drop (p + data_size (take i bs)) (pre @ strdata bs @ post)) = bs ! i"
    and "(pre @ strdata bs @ post) ! (p + data_size (take i bs) + length (bs ! i)) = 0"
    and "p + data_size (take i bs) + length (bs ! i) < length (pre @ strdata bs @ post)"
proof -
  let ?A = "pre @ strdata (take i bs)"
  have lenA: "length ?A = p + data_size (take i bs)" using assms by simp
  have f: "pre @ strdata bs @ post = ?A @ bs ! i @ 0 # strdata (drop (Suc i) bs) @ post"
    by (subst strdata_split[OF assms(1)]) simp
  show "take (length (bs ! i)) (drop (p + data_size (take i bs)) (pre @ strdata bs @ post)) = bs ! i"
    unfolding f lenA[symmetric] by simp
  show "(pre @ strdata bs @ post) ! (p + data_size (take i bs) + length (bs ! i)) = 0"
    unfolding f lenA[symmetric] by (simp add: nth_append)
  show "p + data_size (take i bs) + length (bs ! i) < length (pre @ strdata bs @ post)"
    unfolding f lenA[symmetric] by simp
qed


section \<open>UTF-8: decoding an encoding\<close>

lemma byte_of_nat_less: "n < 256 \<Longrightarrow> unat (of_nat n :: byte) = n"
  by (simp add: unat_of_nat)

lemma byte_less_iff: "(a :: byte) < b \<longleftrightarrow> unat a < unat b"
  by (rule word_less_nat_alt)

lemma byte_le_iff: "(a :: byte) \<le> b \<longleftrightarrow> unat a \<le> unat b"
  by (rule word_le_nat_alt)

lemma decode1_raw:
  assumes "unat b0 < 0x80"
  shows "utf8_decode (b0 # rest) = map_option ((#) (unat b0)) (utf8_decode rest)"
  using assms by (simp add: byte_less_iff)

lemma decode2_raw:
  assumes "unat b0 = 0xC0 + x" "x < 32" "unat b1 = 0x80 + y" "y < 64" "0x80 \<le> x * 0x40 + y"
  shows "utf8_decode (b0 # b1 # rest) = map_option ((#) (x * 0x40 + y)) (utf8_decode rest)"
proof -
  have c0: "\<not> b0 < 0x80" "0xC0 \<le> b0" "b0 < 0xE0"
    using assms(1,2) by (simp_all add: byte_less_iff byte_le_iff)
  have c1: "0x80 \<le> b1" "b1 < 0xC0"
    using assms(3,4) by (simp_all add: byte_less_iff byte_le_iff)
  have v: "(unat b0 - 0xC0) * 0x40 + (unat b1 - 0x80) = x * 0x40 + y"
    using assms(1,3) by simp
  show ?thesis
    by (simp only: utf8_decode.simps c0 c1 v Let_def list.case if_True if_False simp_thms assms(5))
qed

lemma decode3_raw:
  assumes "unat b0 = 0xE0 + x" "x < 16" "unat b1 = 0x80 + y" "y < 64" "unat b2 = 0x80 + z" "z < 64"
    and "0x800 \<le> x * 0x1000 + y * 0x40 + z"
    and "\<not> (0xD800 \<le> x * 0x1000 + y * 0x40 + z \<and> x * 0x1000 + y * 0x40 + z \<le> 0xDFFF)"
  shows "utf8_decode (b0 # b1 # b2 # rest) =
         map_option ((#) (x * 0x1000 + y * 0x40 + z)) (utf8_decode rest)"
proof -
  have c0: "\<not> b0 < 0x80" "\<not> (0xC0 \<le> b0 \<and> b0 < 0xE0)" "0xE0 \<le> b0" "b0 < 0xF0"
    using assms(1,2) by (simp_all add: byte_less_iff byte_le_iff)
  have c1: "0x80 \<le> b1" "b1 < 0xC0"
    using assms(3,4) by (simp_all add: byte_less_iff byte_le_iff)
  have c2: "0x80 \<le> b2" "b2 < 0xC0"
    using assms(5,6) by (simp_all add: byte_less_iff byte_le_iff)
  have v: "(unat b0 - 0xE0) * 0x1000 + (unat b1 - 0x80) * 0x40 + (unat b2 - 0x80) =
           x * 0x1000 + y * 0x40 + z"
    using assms(1,3,5) by simp
  show ?thesis
    by (simp only: utf8_decode.simps c0 c1 c2 v Let_def list.case if_True if_False simp_thms
        assms(7,8))
qed

lemma decode4_raw:
  assumes "unat b0 = 0xF0 + x" "x < 8" "unat b1 = 0x80 + y" "y < 64" "unat b2 = 0x80 + z" "z < 64"
    and "unat b3 = 0x80 + w" "w < 64"
    and "0x10000 \<le> x * 0x40000 + y * 0x1000 + z * 0x40 + w"
    and "x * 0x40000 + y * 0x1000 + z * 0x40 + w < 0x110000"
  shows "utf8_decode (b0 # b1 # b2 # b3 # rest) =
         map_option ((#) (x * 0x40000 + y * 0x1000 + z * 0x40 + w)) (utf8_decode rest)"
proof -
  have c0: "\<not> b0 < 0x80" "\<not> (0xC0 \<le> b0 \<and> b0 < 0xE0)" "\<not> (0xE0 \<le> b0 \<and> b0 < 0xF0)"
    "0xF0 \<le> b0" "b0 < 0xF8"
    using assms(1,2) by (simp_all add: byte_less_iff byte_le_iff)
  have c1: "0x80 \<le> b1" "b1 < 0xC0"
    using assms(3,4) by (simp_all add: byte_less_iff byte_le_iff)
  have c2: "0x80 \<le> b2" "b2 < 0xC0"
    using assms(5,6) by (simp_all add: byte_less_iff byte_le_iff)
  have c3: "0x80 \<le> b3" "b3 < 0xC0"
    using assms(7,8) by (simp_all add: byte_less_iff byte_le_iff)
  have v: "(unat b0 - 0xF0) * 0x40000 + (unat b1 - 0x80) * 0x1000 + (unat b2 - 0x80) * 0x40 +
           (unat b3 - 0x80) = x * 0x40000 + y * 0x1000 + z * 0x40 + w"
    using assms(1,3,5,7) by simp
  show ?thesis
    by (simp only: utf8_decode.simps c0 c1 c2 c3 v Let_def list.case if_True if_False simp_thms
        assms(9,10))
qed

lemma split2: "(c::nat) div 0x40 * 0x40 + c mod 0x40 = c"
  by simp

lemma split3: "(c::nat) div 0x1000 * 0x1000 + c div 0x40 mod 0x40 * 0x40 + c mod 0x40 = c"
proof -
  have b: "c div 0x1000 = c div 0x40 div 0x40" by (simp add: div_mult2_eq[symmetric])
  have s0: "c = c mod 0x40 + 0x40 * (c div 0x40)" by simp
  have s1: "c div 0x40 = c div 0x40 mod 0x40 + 0x40 * (c div 0x1000)" unfolding b by simp
  show ?thesis using s0 s1 by linarith
qed

lemma split4:
  "(c::nat) div 0x40000 * 0x40000 + c div 0x1000 mod 0x40 * 0x1000 + c div 0x40 mod 0x40 * 0x40 +
   c mod 0x40 = c"
proof -
  have b: "c div 0x1000 = c div 0x40 div 0x40" by (simp add: div_mult2_eq[symmetric])
  have d: "c div 0x40000 = c div 0x1000 div 0x40" by (simp add: div_mult2_eq[symmetric])
  have s0: "c = c mod 0x40 + 0x40 * (c div 0x40)" by simp
  have s1: "c div 0x40 = c div 0x40 mod 0x40 + 0x40 * (c div 0x1000)" unfolding b by simp
  have s2: "c div 0x1000 = c div 0x1000 mod 0x40 + 0x40 * (c div 0x40000)" unfolding d by simp
  show ?thesis using s0 s1 s2 by linarith
qed

lemma lead_byte: "k + x < 256 \<Longrightarrow> unat (of_nat (k + x) :: byte) = k + x"
  by (rule byte_of_nat_less)

lemma cont_byte: "unat (of_nat (0x80 + n mod 0x40) :: byte) = 0x80 + n mod 0x40"
  by (intro byte_of_nat_less) simp

lemma decode_char1:
  assumes "c < 0x80"
  shows "utf8_decode (of_nat c # rest) = map_option ((#) c) (utf8_decode rest)"
proof -
  have u: "unat (of_nat c :: byte) = c" using assms by (intro byte_of_nat_less) simp
  show ?thesis using decode1_raw[of "of_nat c" rest] assms unfolding u by simp
qed

lemma decode_char2:
  assumes "0x80 \<le> c" "c < 0x800"
  shows "utf8_decode (of_nat (0xC0 + c div 0x40) # of_nat (0x80 + c mod 0x40) # rest)
         = map_option ((#) c) (utf8_decode rest)"
proof -
  have x: "c div 0x40 < 32" using assms by simp
  have a: "unat (of_nat (0xC0 + c div 0x40) :: byte) = 0xC0 + c div 0x40"
    using x by (intro lead_byte) simp
  show ?thesis
    using decode2_raw[OF a x cont_byte, of c rest] assms(1) unfolding split2 by simp
qed

lemma decode_char3:
  assumes "0x800 \<le> c" "c < 0x10000" "\<not> (0xD800 \<le> c \<and> c \<le> 0xDFFF)"
  shows "utf8_decode (of_nat (0xE0 + c div 0x1000) # of_nat (0x80 + c div 0x40 mod 0x40) #
                      of_nat (0x80 + c mod 0x40) # rest)
         = map_option ((#) c) (utf8_decode rest)"
proof -
  have x: "c div 0x1000 < 16" using assms by simp
  have a: "unat (of_nat (0xE0 + c div 0x1000) :: byte) = 0xE0 + c div 0x1000"
    using x by (intro lead_byte) simp
  show ?thesis
    using decode3_raw[OF a x cont_byte _ cont_byte, of "c div 0x40" c rest] assms(1,3)
    unfolding split3 by simp
qed

lemma decode_char4:
  assumes "0x10000 \<le> c" "c < 0x110000"
  shows "utf8_decode (of_nat (0xF0 + c div 0x40000) # of_nat (0x80 + c div 0x1000 mod 0x40) #
                      of_nat (0x80 + c div 0x40 mod 0x40) # of_nat (0x80 + c mod 0x40) # rest)
         = map_option ((#) c) (utf8_decode rest)"
proof -
  have x: "c div 0x40000 < 8" using assms by simp
  have a: "unat (of_nat (0xF0 + c div 0x40000) :: byte) = 0xF0 + c div 0x40000"
    using x by (intro lead_byte) simp
  show ?thesis
    using decode4_raw[OF a x cont_byte _ cont_byte _ cont_byte, of "c div 0x1000" "c div 0x40" c rest]
      assms
    unfolding split4 by simp
qed

lemma decode_utf8_char:
  "utf8_char c = Inr b \<Longrightarrow> utf8_decode (b @ rest) = map_option ((#) c) (utf8_decode rest)"
  unfolding utf8_char_def
  by (auto split: if_splits simp add: decode_char1 decode_char2 decode_char3 decode_char4
      simp del: utf8_decode.simps of_nat_add of_nat_numeral)

lemma decode_encode_append:
  "encode s = Inr b \<Longrightarrow> utf8_decode (b @ rest) = map_option ((@) s) (utf8_decode rest)"
proof (induction s arbitrary: b)
  case Nil
  then show ?case by (simp add: option.map_ident del: utf8_decode.simps)
next
  case (Cons c s)
  from Cons.prems obtain bc bs where
    p: "utf8_char c = Inr bc" "encode s = Inr bs" "b = bc @ bs"
    by (auto split: sum.splits)
  show ?case
    using Cons.IH[OF p(2)] decode_utf8_char[OF p(1), of "bs @ rest"]
    by (simp add: p(3) option.map_comp comp_def del: utf8_decode.simps)
qed

lemma decode_encode: "encode s = Inr b \<Longrightarrow> utf8_decode b = Some s"
  using decode_encode_append[of s b "[]"] by simp


section \<open>Reading the file of make_mo\<close>

lemma bytes_le_iff: "bytes_le xs ys \<longleftrightarrow> xs \<le> ys"
  by (induction xs ys rule: bytes_le.induct) (auto simp add: word_less_nat_alt word_unat_eq_iff)

lemma length_hdr_bytes [simp]: "length (hdr_bytes N) = 28"
  by (simp add: hdr_bytes_def)

lemma mo_bytes_hdr:
  "mo_bytes kbs vbs =
     hdr_bytes (length kbs) @ table_bytes (metas (data_H (length kbs)) kbs) @
     table_bytes (metas (data_H (length kbs) + data_size kbs) vbs) @ strdata kbs @ strdata vbs"
  by (simp add: mo_bytes_def hdr_bytes_def Let_def)

lemma length_mo_bytes:
  "length vbs = length kbs \<Longrightarrow>
   length (mo_bytes kbs vbs) = data_H (length kbs) + data_size kbs + data_size vbs"
  by (simp add: mo_bytes_hdr data_H_def)

lemma drop_H_mo_bytes:
  "length vbs = length kbs \<Longrightarrow>
   drop (data_H (length kbs)) (mo_bytes kbs vbs) = strdata kbs @ strdata vbs"
  by (simp add: mo_bytes_hdr data_H_def)

lemma mo_header_fields:
  assumes "data_H N < 2 ^ 32" "N = length kbs"
  shows "u32_at (mo_bytes kbs vbs) 0 = Some 0x950412de"
    and "u32_at (mo_bytes kbs vbs) 4 = Some 0"
    and "u32_at (mo_bytes kbs vbs) 8 = Some N"
    and "u32_at (mo_bytes kbs vbs) 12 = Some 28"
    and "u32_at (mo_bytes kbs vbs) 16 = Some (table_T N)"
    and "u32_at (mo_bytes kbs vbs) 20 = Some 0"
    and "u32_at (mo_bytes kbs vbs) 24 = Some (data_H N)"
proof -
  have b: "N < 2 ^ 32" "table_T N < 2 ^ 32"
    using assms(1) by (simp_all add: data_H_def table_T_def)
  let ?f = "mo_bytes kbs vbs"
  let ?rest = "table_bytes (metas (data_H N) kbs) @
     table_bytes (metas (data_H N + data_size kbs) vbs) @ strdata kbs @ strdata vbs"
  have f: "?f = le32 0x950412de @ le32 0 @ le32 N @ le32 28 @ le32 (table_T N) @ le32 0 @
                le32 (data_H N) @ ?rest"
    by (simp add: mo_bytes_def Let_def assms(2))
  show "u32_at ?f 0 = Some 0x950412de"
    unfolding f using u32_at_le32[of "0x950412de" "[]" 0] by simp
  show "u32_at ?f 4 = Some 0"
    unfolding f using u32_at_le32[of 0 "le32 0x950412de" 4] by simp
  show "u32_at ?f 8 = Some N"
    unfolding f using u32_at_le32[of N "le32 0x950412de @ le32 0" 8] b by simp
  show "u32_at ?f 12 = Some 28"
    unfolding f using u32_at_le32[of 28 "le32 0x950412de @ le32 0 @ le32 N" 12] by simp
  show "u32_at ?f 16 = Some (table_T N)"
    unfolding f
    using u32_at_le32[of "table_T N" "le32 0x950412de @ le32 0 @ le32 N @ le32 28" 16] b by simp
  show "u32_at ?f 20 = Some 0"
    unfolding f
    using u32_at_le32[of 0 "le32 0x950412de @ le32 0 @ le32 N @ le32 28 @ le32 (table_T N)" 20]
    by simp
  show "u32_at ?f 24 = Some (data_H N)"
    unfolding f
    using u32_at_le32[of "data_H N"
        "le32 0x950412de @ le32 0 @ le32 N @ le32 28 @ le32 (table_T N) @ le32 0" 24] assms(1)
    by simp
qed

lemma mo_key_entry:
  assumes "i < length kbs" "fits32 (metas (data_H (length kbs)) kbs)" "length vbs = length kbs"
  shows "u32_at (mo_bytes kbs vbs) (28 + 8 * i) = Some (length (kbs ! i))"
    and "u32_at (mo_bytes kbs vbs) (28 + 8 * i + 4) =
           Some (data_H (length kbs) + data_size (take i kbs))"
    and "take (length (kbs ! i))
           (drop (data_H (length kbs) + data_size (take i kbs)) (mo_bytes kbs vbs)) = kbs ! i"
    and "mo_bytes kbs vbs ! (data_H (length kbs) + data_size (take i kbs) + length (kbs ! i)) = 0"
    and "data_H (length kbs) + data_size (take i kbs) + length (kbs ! i) < length (mo_bytes kbs vbs)"
proof -
  let ?H = "data_H (length kbs)"
  let ?M1 = "metas ?H kbs" and ?M2 = "metas (?H + data_size kbs) vbs"
  have i': "i < length ?M1" using assms(1) by simp
  have f1: "mo_bytes kbs vbs =
      hdr_bytes (length kbs) @ table_bytes ?M1 @ (table_bytes ?M2 @ strdata kbs @ strdata vbs)"
    by (simp add: mo_bytes_hdr)
  show "u32_at (mo_bytes kbs vbs) (28 + 8 * i) = Some (length (kbs ! i))"
    unfolding f1 using table_entry(1)[OF i' assms(2), of "hdr_bytes (length kbs)" 28]
    by (simp add: metas_nth[OF assms(1)])
  show "u32_at (mo_bytes kbs vbs) (28 + 8 * i + 4) = Some (?H + data_size (take i kbs))"
    unfolding f1 using table_entry(2)[OF i' assms(2), of "hdr_bytes (length kbs)" 28]
    by (simp add: metas_nth[OF assms(1)])
  let ?pre = "hdr_bytes (length kbs) @ table_bytes ?M1 @ table_bytes ?M2"
  have lp: "length ?pre = ?H" using assms(3) by (simp add: data_H_def)
  have f2: "mo_bytes kbs vbs = ?pre @ strdata kbs @ strdata vbs"
    by (simp add: mo_bytes_hdr)
  show "take (length (kbs ! i)) (drop (?H + data_size (take i kbs)) (mo_bytes kbs vbs)) = kbs ! i"
    unfolding f2 by (rule string_in_file(1)[OF assms(1) lp])
  show "mo_bytes kbs vbs ! (?H + data_size (take i kbs) + length (kbs ! i)) = 0"
    unfolding f2 by (rule string_in_file(2)[OF assms(1) lp])
  show "?H + data_size (take i kbs) + length (kbs ! i) < length (mo_bytes kbs vbs)"
    unfolding f2 by (rule string_in_file(3)[OF assms(1) lp])
qed

lemma mo_val_entry:
  assumes "i < length vbs" "length vbs = length kbs"
    and "fits32 (metas (data_H (length kbs) + data_size kbs) vbs)"
  shows "u32_at (mo_bytes kbs vbs) (table_T (length kbs) + 8 * i) = Some (length (vbs ! i))"
    and "u32_at (mo_bytes kbs vbs) (table_T (length kbs) + 8 * i + 4) =
           Some (data_H (length kbs) + data_size kbs + data_size (take i vbs))"
    and "take (length (vbs ! i))
           (drop (data_H (length kbs) + data_size kbs + data_size (take i vbs)) (mo_bytes kbs vbs))
         = vbs ! i"
    and "mo_bytes kbs vbs !
           (data_H (length kbs) + data_size kbs + data_size (take i vbs) + length (vbs ! i)) = 0"
    and "data_H (length kbs) + data_size kbs + data_size (take i vbs) + length (vbs ! i)
           < length (mo_bytes kbs vbs)"
proof -
  let ?H = "data_H (length kbs)"
  let ?M1 = "metas ?H kbs" and ?M2 = "metas (?H + data_size kbs) vbs"
  have i': "i < length ?M2" using assms(1) by simp
  let ?pre1 = "hdr_bytes (length kbs) @ table_bytes ?M1"
  have lp1: "length ?pre1 = table_T (length kbs)" by (simp add: table_T_def)
  have f1: "mo_bytes kbs vbs = ?pre1 @ table_bytes ?M2 @ (strdata kbs @ strdata vbs)"
    by (simp add: mo_bytes_hdr)
  show "u32_at (mo_bytes kbs vbs) (table_T (length kbs) + 8 * i) = Some (length (vbs ! i))"
    unfolding f1 using table_entry(1)[OF i' assms(3) lp1]
    by (simp add: metas_nth[OF assms(1)])
  show "u32_at (mo_bytes kbs vbs) (table_T (length kbs) + 8 * i + 4) =
           Some (?H + data_size kbs + data_size (take i vbs))"
    unfolding f1 using table_entry(2)[OF i' assms(3) lp1]
    by (simp add: metas_nth[OF assms(1)])
  let ?pre = "hdr_bytes (length kbs) @ table_bytes ?M1 @ table_bytes ?M2 @ strdata kbs"
  have lp: "length ?pre = ?H + data_size kbs" using assms(2) by (simp add: data_H_def)
  have f2: "mo_bytes kbs vbs = ?pre @ strdata vbs @ []"
    by (simp add: mo_bytes_hdr)
  show "take (length (vbs ! i))
           (drop (?H + data_size kbs + data_size (take i vbs)) (mo_bytes kbs vbs)) = vbs ! i"
    unfolding f2 by (rule string_in_file(1)[OF assms(1) lp])
  show "mo_bytes kbs vbs ! (?H + data_size kbs + data_size (take i vbs) + length (vbs ! i)) = 0"
    unfolding f2 by (rule string_in_file(2)[OF assms(1) lp])
  show "?H + data_size kbs + data_size (take i vbs) + length (vbs ! i) < length (mo_bytes kbs vbs)"
    unfolding f2 by (rule string_in_file(3)[OF assms(1) lp])
qed

lemma mo_read_key:
  assumes "i < length kbs" "fits32 (metas (data_H (length kbs)) kbs)" "length vbs = length kbs"
  shows "read_string (mo_bytes kbs vbs) (28 + 8 * i) = Some (kbs ! i)"
  using mo_key_entry[OF assms] by (simp add: read_string_def)

lemma mo_read_val:
  assumes "i < length vbs" "length vbs = length kbs"
    and "fits32 (metas (data_H (length kbs) + data_size kbs) vbs)"
  shows "read_string (mo_bytes kbs vbs) (table_T (length kbs) + 8 * i) = Some (vbs ! i)"
  using mo_val_entry[OF assms] by (simp add: read_string_def)


section \<open>The reader on the file of make_mo\<close>

lemma encode_all_nth:
  "encode_all ss = Inr bs \<Longrightarrow> i < length ss \<Longrightarrow> encode (ss ! i) = Inr (bs ! i)"
  using list_all2_nthD[of "\<lambda>s b. encode s = Inr b" ss bs i] by (simp add: encode_all_iff)

lemma read_entries_mo:
  assumes kb: "encode_all (map fst qs) = Inr kbs" and vb: "encode_all (map snd qs) = Inr vbs"
    and fk: "fits32 (metas (data_H (length kbs)) kbs)"
    and fv: "fits32 (metas (data_H (length kbs) + data_size kbs) vbs)"
  shows "j + n \<le> length qs \<Longrightarrow> ot = 28 + 8 * j \<Longrightarrow> tt = table_T (length kbs) + 8 * j \<Longrightarrow>
     read_entries (mo_bytes kbs vbs) ot tt n = Some (take n (drop j qs))"
proof (induction n arbitrary: j ot tt)
  case 0
  then show ?case by simp
next
  case (Suc n)
  have lk: "length kbs = length qs" using encode_all_length[OF kb] by simp
  have lv: "length vbs = length qs" using encode_all_length[OF vb] by simp
  have j: "j < length qs" using Suc.prems by simp
  have rk: "read_string (mo_bytes kbs vbs) ot = Some (kbs ! j)"
    unfolding Suc.prems(2) using mo_read_key[OF _ fk, of j vbs] j lk lv by simp
  have rv: "read_string (mo_bytes kbs vbs) tt = Some (vbs ! j)"
    unfolding Suc.prems(3) using mo_read_val[OF _ _ fv, of j] j lk lv by simp
  have dk: "utf8_decode (kbs ! j) = Some (fst (qs ! j))"
    using encode_all_nth[OF kb, of j] j by (simp add: decode_encode)
  have dv: "utf8_decode (vbs ! j) = Some (snd (qs ! j))"
    using encode_all_nth[OF vb, of j] j by (simp add: decode_encode)
  have ih: "read_entries (mo_bytes kbs vbs) (ot + 8) (tt + 8) n = Some (take n (drop (Suc j) qs))"
    using Suc.prems by (intro Suc.IH) simp_all
  have d: "drop j qs = qs ! j # drop (Suc j) qs" using j by (simp add: Cons_nth_drop_Suc)
  show ?case
    using rk rv dk dv ih d by simp
qed

lemma ref_read_mo_bytes:
  assumes kb: "encode_all (map fst qs) = Inr kbs" and vb: "encode_all (map snd qs) = Inr vbs"
    and h: "data_H (length qs) < 2 ^ 32"
    and fk: "fits32 (metas (data_H (length qs)) kbs)"
    and fv: "fits32 (metas (data_H (length qs) + data_size kbs) vbs)"
  shows "ref_read_mo (mo_bytes kbs vbs) = Some qs"
proof -
  have lk: "length kbs = length qs" using encode_all_length[OF kb] by simp
  have re: "read_entries (mo_bytes kbs vbs) 28 (table_T (length qs)) (length qs) = Some qs"
    using read_entries_mo[OF kb vb, of 0 "length qs" 28 "table_T (length qs)"] fk fv
    by (simp add: lk)
  show ?thesis
    using mo_header_fields[OF h lk[symmetric], of vbs] re
    by (simp add: ref_read_mo_def)
qed

lemma sort_pairs_Inr:
  assumes "sort_pairs ps = Inr qs"
  shows "mset qs = mset ps"
    and "\<exists>kbs. encode_all (map fst qs) = Inr kbs \<and> sorted kbs"
proof -
  from assms obtain kbs0 where
    k0: "encode_all (map fst ps) = Inr kbs0" and
    qs: "qs = map snd (sort_key fst (zip kbs0 ps))"
    by (auto simp add: sort_pairs_def encode_keys_eq split: sum.splits)
  have len: "length kbs0 = length ps" using encode_all_length[OF k0] by simp
  let ?K = "sort_key fst (zip kbs0 ps)"
  have "mset ?K = mset (zip kbs0 ps)" by simp
  then have "mset (map snd ?K) = mset (map snd (zip kbs0 ps))"
    by (metis mset_map)
  then show "mset qs = mset ps" using len by (simp add: qs)
  have el: "\<forall>e\<in>set ?K. encode (fst (snd e)) = Inr (fst e)"
  proof
    fix e assume "e \<in> set ?K"
    then have "e \<in> set (zip kbs0 ps)" by simp
    then obtain i where i: "i < length ps" "e = (kbs0 ! i, ps ! i)"
      using len by (auto simp add: set_zip)
    with encode_all_nth[OF k0, of i] show "encode (fst (snd e)) = Inr (fst e)" by simp
  qed
  have "list_all2 (\<lambda>s b. encode s = Inr b) (map fst qs) (map fst ?K)"
    unfolding qs using el by (simp add: list_all2_map1 list_all2_map2 list_all2_same)
  then have enc: "encode_all (map fst qs) = Inr (map fst ?K)" by (simp add: encode_all_iff)
  have srt: "sorted (map fst ?K)" by (rule sorted_sort_key)
  show "\<exists>kbs. encode_all (map fst qs) = Inr kbs \<and> sorted kbs"
    using enc srt by blast
qed

lemma make_mo_Inr:
  assumes "make_mo ps0 = Inr file"
  shows "\<exists>qs kbs vbs.
           sort_pairs (filter keep ps0) = Inr qs \<and> mset qs = mset (filter keep ps0) \<and>
           encode_all (map fst qs) = Inr kbs \<and> encode_all (map snd qs) = Inr vbs \<and>
           sorted kbs \<and> file = mo_bytes kbs vbs \<and> data_H (length qs) < 2 ^ 32 \<and>
           fits32 (metas (data_H (length qs)) kbs) \<and>
           fits32 (metas (data_H (length qs) + data_size kbs) vbs)"
proof -
  from assms obtain qs where qs: "sort_pairs (filter keep ps0) = Inr qs"
    by (cases "sort_pairs (filter keep ps0)") (simp_all add: make_mo_def)
  from sort_pairs_Inr[OF qs] obtain kbs where
    ms: "mset qs = mset (filter keep ps0)" and kb: "encode_all (map fst qs) = Inr kbs"
    and srt: "sorted kbs" by blast
  from assms obtain vbs where vb: "encode_all (map snd qs) = Inr vbs"
    by (cases "encode_all (map snd qs)") (simp_all add: make_mo_from_sorted[OF qs] kb)
  from assms have
    "data_H (length qs) < 2 ^ 32 \<and> fits32 (metas (data_H (length qs)) kbs) \<and>
     fits32 (metas (data_H (length qs) + data_size kbs) vbs) \<and> file = mo_bytes kbs vbs"
    by (simp add: make_mo_from_sorted[OF qs] kb vb split: if_splits)
  with qs ms kb vb srt show ?thesis by blast
qed

lemma make_mo_read:
  assumes "make_mo ps0 = Inr file"
  shows "\<exists>qs. ref_read_mo file = Some qs \<and> sort_pairs (filter keep ps0) = Inr qs \<and>
              mset qs = mset (filter keep ps0)"
proof -
  from make_mo_Inr[OF assms] obtain qs kbs vbs where
    p: "sort_pairs (filter keep ps0) = Inr qs" "mset qs = mset (filter keep ps0)"
      "encode_all (map fst qs) = Inr kbs" "encode_all (map snd qs) = Inr vbs"
      "file = mo_bytes kbs vbs" "data_H (length qs) < 2 ^ 32"
      "fits32 (metas (data_H (length qs)) kbs)"
      "fits32 (metas (data_H (length qs) + data_size kbs) vbs)"
    by blast
  from ref_read_mo_bytes[OF p(3,4,6,7,8)] p(1,2,5) show ?thesis by blast
qed


section \<open>make_mo: the claims\<close>

lemma data_H_eq: "data_H N = 28 + 16 * N"
  by (simp add: data_H_def)

lemma table_T_eq: "table_T N = 28 + 8 * N"
  by (simp add: table_T_def)

lemma keep_all: "\<forall>(k, v)\<in>set ps. v \<noteq> [] \<Longrightarrow> filter keep ps = ps"
  by (induction ps) (auto simp add: keep_def)

text \<open>
  C1. Round trip. Whenever \<^verbatim>\<open>make_mo\<close> writes a file, the reference reader accepts it.
  When every translated string of the input is non-empty, the entries read back are,
  as a set, the input pairs. A pair of the input whose original string is empty (the
  header entry) is among the entries read back, whatever its value, the empty string
  included.
\<close>

theorem roundtrip_identity:
  "make_mo ps0 = Inr file \<Longrightarrow>
   \<exists>es. ref_read_mo file = Some es \<and>
        ((\<forall>(k, v)\<in>set ps0. v \<noteq> []) \<longrightarrow> set es = set ps0) \<and>
        (\<forall>v. ([], v) \<in> set ps0 \<longrightarrow> ([], v) \<in> set es)"
proof -
  assume m: "make_mo ps0 = Inr file"
  from make_mo_read[OF m] obtain qs where
    r: "ref_read_mo file = Some qs" and ms: "mset qs = mset (filter keep ps0)" by blast
  from ms have s: "set qs = set (filter keep ps0)" by (rule mset_eq_setD)
  have a: "(\<forall>(k, v)\<in>set ps0. v \<noteq> []) \<longrightarrow> set qs = set ps0"
  proof
    assume h: "\<forall>(k, v)\<in>set ps0. v \<noteq> []"
    from keep_all[OF h] s show "set qs = set ps0" by simp
  qed
  have b: "\<forall>v. ([], v) \<in> set ps0 \<longrightarrow> ([], v) \<in> set qs"
    using s by (auto simp add: keep_def)
  from r a b show ?thesis by blast
qed

theorem roundtrip_identity_witness:
  "make_mo [(str ''b'', str ''x''), ([], str ''meta'')] = Inr example_file \<and>
   str ''x'' \<noteq> [] \<and> str ''meta'' \<noteq> [] \<and>
   ([], str ''meta'') \<in> set [(str ''b'', str ''x''), ([], str ''meta'')] \<and>
   (\<exists>es. ref_read_mo example_file = Some es \<and>
         set es = set [(str ''b'', str ''x''), ([], str ''meta'')] \<and>
         ([], str ''meta'') \<in> set es)"
proof -
  have m: "make_mo [(str ''b'', str ''x''), ([], str ''meta'')] = Inr example_file"
    by (simp add: make_mo_def keep_def sort_pairs_def str_def utf8_char_def pack_I_def
        example_file_def)
  have h1: "\<forall>(k, v)\<in>set [(str ''b'', str ''x''), ([], str ''meta'')]. v \<noteq> []"
    by (simp add: str_def)
  have h2: "([], str ''meta'') \<in> set [(str ''b'', str ''x''), ([], str ''meta'')]"
    by simp
  have h3: "str ''x'' \<noteq> [] \<and> str ''meta'' \<noteq> []"
    by (simp add: str_def)
  from roundtrip_identity[OF m] h1 h2 h3 m show ?thesis by blast
qed

text \<open>
  C2. Sorting. In the file \<^verbatim>\<open>make_mo\<close> writes, the original-strings table starts at
  offset 28 and has one entry for each surviving pair: its strings \<open>kbs\<close> are the UTF-8
  encodings of the original strings of a rearrangement \<open>qs\<close> of the surviving pairs, and
  each is at most the next one in the lexicographic order of unsigned byte values.
\<close>

theorem sort_invariant:
  "make_mo ps0 = Inr file \<Longrightarrow>
   \<exists>qs kbs.
     mset qs = mset (filter keep ps0) \<and> encode_all (map fst qs) = Inr kbs \<and>
     u32_at file 8 = Some (length kbs) \<and> u32_at file 12 = Some 28 \<and>
     (\<forall>i<length kbs. read_string file (28 + 8 * i) = Some (kbs ! i)) \<and>
     (\<forall>i. Suc i < length kbs \<longrightarrow> bytes_le (kbs ! i) (kbs ! Suc i))"
proof -
  assume m: "make_mo ps0 = Inr file"
  from make_mo_Inr[OF m] obtain qs kbs vbs where
    p: "mset qs = mset (filter keep ps0)"
      "encode_all (map fst qs) = Inr kbs" "encode_all (map snd qs) = Inr vbs"
      "sorted kbs" "file = mo_bytes kbs vbs" "data_H (length qs) < 2 ^ 32"
      "fits32 (metas (data_H (length qs)) kbs)"
    by blast
  have lk: "length kbs = length qs" using encode_all_length[OF p(2)] by simp
  have lv: "length vbs = length kbs" using encode_all_length[OF p(3)] lk by simp
  have h: "data_H (length kbs) < 2 ^ 32" using p(6) lk by simp
  have n: "u32_at file 8 = Some (length kbs)" "u32_at file 12 = Some 28"
    unfolding p(5) using mo_header_fields(3,4)[OF h refl] by simp_all
  have rd: "\<forall>i<length kbs. read_string file (28 + 8 * i) = Some (kbs ! i)"
    unfolding p(5) using mo_read_key[OF _ _ lv] p(7) lk by simp
  have le: "\<forall>i. Suc i < length kbs \<longrightarrow> bytes_le (kbs ! i) (kbs ! Suc i)"
    using p(4) by (simp add: bytes_le_iff sorted_iff_nth_Suc)
  from p(1,2) n rd le show ?thesis by blast
qed

theorem sort_invariant_witness:
  "make_mo example_pairs = Inr example_file \<and>
   (\<exists>qs kbs.
     mset qs = mset (filter keep example_pairs) \<and> encode_all (map fst qs) = Inr kbs \<and>
     u32_at example_file 8 = Some (length kbs) \<and> u32_at example_file 12 = Some 28 \<and>
     (\<forall>i<length kbs. read_string example_file (28 + 8 * i) = Some (kbs ! i)) \<and>
     (\<forall>i. Suc i < length kbs \<longrightarrow> bytes_le (kbs ! i) (kbs ! Suc i))) \<and>
   read_string example_file 28 = Some [] \<and> read_string example_file 36 = Some [0x62] \<and>
   bytes_le [] [0x62]"
proof -
  have m: "make_mo example_pairs = Inr example_file"
    by (simp add: make_mo_def keep_def sort_pairs_def str_def utf8_char_def pack_I_def
        example_file_def example_pairs_def)
  have r: "read_string example_file 28 = Some [] \<and> read_string example_file 36 = Some [0x62] \<and>
     bytes_le [] [0x62]"
    by (simp add: read_string_def u32_at_def example_file_def)
  from sort_invariant[OF m] m r show ?thesis by blast
qed

text \<open>
  C3. Filtering. The entries the reader finds in the file of \<^verbatim>\<open>make_mo\<close> are exactly the
  pairs of the input whose translated string is non-empty or whose original string is
  empty, each as often as in the input, and the entry count of the header is their
  number. For the three pairs of the example the file holds two entries, the header
  entry with \<open>meta\<close> and \<open>b\<close> with \<open>x\<close>.
\<close>

theorem empty_translation_filtering:
  "(make_mo ps0 = Inr file \<longrightarrow>
      (\<exists>es. ref_read_mo file = Some es \<and>
            (\<forall>k v. (k, v) \<in> set es \<longleftrightarrow> (k, v) \<in> set ps0 \<and> (v \<noteq> [] \<or> k = [])) \<and>
            mset es = mset (filter (\<lambda>(k, v). v \<noteq> [] \<or> k = []) ps0) \<and>
            u32_at file 8 = Some (length es))) \<and>
   make_mo [(str ''a'', []), (str ''b'', str ''x''), ([], str ''meta'')] = Inr example_file \<and>
   ref_read_mo example_file = Some [([], str ''meta''), (str ''b'', str ''x'')]"
proof (intro conjI impI)
  assume m: "make_mo ps0 = Inr file"
  from make_mo_Inr[OF m] obtain qs kbs vbs where
    p: "mset qs = mset (filter keep ps0)"
      "encode_all (map fst qs) = Inr kbs" "file = mo_bytes kbs vbs"
      "data_H (length qs) < 2 ^ 32"
    by blast
  from make_mo_read[OF m] p(1) obtain qs' where
    r: "ref_read_mo file = Some qs'" "sort_pairs (filter keep ps0) = Inr qs'"
      "mset qs' = mset (filter keep ps0)" by blast
  have lk: "length kbs = length qs" using encode_all_length[OF p(2)] by simp
  have "length qs = length qs'" using p(1) r(3) by (metis size_mset)
  then have n: "u32_at file 8 = Some (length qs')"
    unfolding p(3) using mo_header_fields(3)[of "length kbs" kbs] p(4) lk by simp
  have k: "keep = (\<lambda>(k, v). v \<noteq> [] \<or> k = [])" by (simp add: keep_def)
  from r(3) have s: "set qs' = set (filter keep ps0)" by (rule mset_eq_setD)
  have iff: "\<forall>k v. (k, v) \<in> set qs' \<longleftrightarrow> (k, v) \<in> set ps0 \<and> (v \<noteq> [] \<or> k = [])"
    using s by (auto simp add: keep_def)
  show "\<exists>es. ref_read_mo file = Some es \<and>
            (\<forall>k v. (k, v) \<in> set es \<longleftrightarrow> (k, v) \<in> set ps0 \<and> (v \<noteq> [] \<or> k = [])) \<and>
            mset es = mset (filter (\<lambda>(k, v). v \<noteq> [] \<or> k = []) ps0) \<and>
            u32_at file 8 = Some (length es)"
    using r(1) iff r(3) n unfolding k by blast
next
  show m: "make_mo [(str ''a'', []), (str ''b'', str ''x''), ([], str ''meta'')] = Inr example_file"
    by (simp add: make_mo_def keep_def sort_pairs_def str_def utf8_char_def pack_I_def
        example_file_def)
  from make_mo_read[OF m] obtain qs where
    r: "ref_read_mo example_file = Some qs"
      "sort_pairs (filter keep [(str ''a'', []), (str ''b'', str ''x''), ([], str ''meta'')]) = Inr qs"
    by blast
  from r(2) have "qs = [([], str ''meta''), (str ''b'', str ''x'')]"
    by (simp add: keep_def sort_pairs_def str_def utf8_char_def)
  with r(1) show "ref_read_mo example_file = Some [([], str ''meta''), (str ''b'', str ''x'')]"
    by simp
qed

theorem empty_translation_filtering_witness:
  "make_mo example_pairs = Inr example_file \<and>
   (\<exists>es. ref_read_mo example_file = Some es \<and>
         (\<forall>k v. (k, v) \<in> set es \<longleftrightarrow> (k, v) \<in> set example_pairs \<and> (v \<noteq> [] \<or> k = [])) \<and>
         mset es = mset (filter (\<lambda>(k, v). v \<noteq> [] \<or> k = []) example_pairs) \<and>
         u32_at example_file 8 = Some (length es))"
proof -
  have m: "make_mo example_pairs = Inr example_file"
    by (simp add: make_mo_def keep_def sort_pairs_def str_def utf8_char_def pack_I_def
        example_file_def example_pairs_def)
  from empty_translation_filtering[of example_pairs example_file] m show ?thesis by blast
qed

lemma sort_pairs_Nil: "sort_pairs [] = Inr []"
  by (simp add: sort_pairs_def)

text \<open>
  C4. Header. The file \<^verbatim>\<open>make_mo\<close> writes for \<open>N\<close> surviving pairs starts with seven
  little-endian 32-bit integers at offsets 0 to 24: the magic number \<open>0x950412de\<close>, 0,
  \<open>N\<close>, 28, \<open>28 + 8N\<close>, 0 and \<open>28 + 16N\<close>. With no surviving pair \<^verbatim>\<open>make_mo\<close> does not
  raise and the file is the 28 bytes of the header.
\<close>

theorem header_layout:
  "(make_mo ps0 = Inr file \<longrightarrow> N = length (filter keep ps0) \<longrightarrow>
      u32_at file 0 = Some 0x950412de \<and> u32_at file 4 = Some 0 \<and> u32_at file 8 = Some N \<and>
      u32_at file 12 = Some 28 \<and> u32_at file 16 = Some (28 + 8 * N) \<and>
      u32_at file 20 = Some 0 \<and> u32_at file 24 = Some (28 + 16 * N) \<and>
      28 + 16 * N \<le> length file \<and> (N = 0 \<longrightarrow> length file = 28)) \<and>
   (filter keep ps0 = [] \<longrightarrow>
      make_mo ps0 =
        Inr [0xde, 0x12, 0x04, 0x95,  0, 0, 0, 0,  0, 0, 0, 0,  28, 0, 0, 0,
             28, 0, 0, 0,  0, 0, 0, 0,  28, 0, 0, 0])"
proof (intro conjI impI)
  assume m: "make_mo ps0 = Inr file" and N: "N = length (filter keep ps0)"
  from make_mo_Inr[OF m] obtain qs kbs vbs where
    p: "mset qs = mset (filter keep ps0)"
      "encode_all (map fst qs) = Inr kbs" "encode_all (map snd qs) = Inr vbs"
      "file = mo_bytes kbs vbs" "data_H (length qs) < 2 ^ 32"
    by blast
  have lq: "length qs = N" unfolding N using p(1) by (metis size_mset)
  have lk: "N = length kbs" using encode_all_length[OF p(2)] lq by simp
  have lv: "length vbs = length kbs" using encode_all_length[OF p(3)] lq lk by simp
  have h: "data_H N < 2 ^ 32" using p(5) lq by simp
  note hf = mo_header_fields[OF h lk, of vbs, folded p(4), unfolded data_H_eq table_T_eq]
  show "u32_at file 0 = Some 0x950412de" by (rule hf(1))
  show "u32_at file 4 = Some 0" by (rule hf(2))
  show "u32_at file 8 = Some N" by (rule hf(3))
  show "u32_at file 12 = Some 28" by (rule hf(4))
  show "u32_at file 16 = Some (28 + 8 * N)" by (rule hf(5))
  show "u32_at file 20 = Some 0" by (rule hf(6))
  show "u32_at file 24 = Some (28 + 16 * N)" by (rule hf(7))
  have len: "length file = 28 + 16 * N + data_size kbs + data_size vbs"
    unfolding p(4) using length_mo_bytes[OF lv] lk by (simp add: data_H_eq)
  show "28 + 16 * N \<le> length file" using len by simp
  show "length file = 28" if "N = 0"
    using len that lk lv by simp
next
  assume e: "filter keep ps0 = []"
  have s: "sort_pairs (filter keep ps0) = Inr []" by (simp add: e sort_pairs_Nil)
  show "make_mo ps0 =
        Inr [0xde, 0x12, 0x04, 0x95,  0, 0, 0, 0,  0, 0, 0, 0,  28, 0, 0, 0,
             28, 0, 0, 0,  0, 0, 0, 0,  28, 0, 0, 0]"
    by (simp add: make_mo_from_sorted[OF s] mo_bytes_def data_H_def table_T_def le32_def)
qed

theorem header_layout_witness:
  "make_mo example_pairs = Inr example_file \<and> length (filter keep example_pairs) = 2 \<and>
   u32_at example_file 0 = Some 0x950412de \<and> u32_at example_file 4 = Some 0 \<and>
   u32_at example_file 8 = Some 2 \<and> u32_at example_file 12 = Some 28 \<and>
   u32_at example_file 16 = Some 44 \<and> u32_at example_file 20 = Some 0 \<and>
   u32_at example_file 24 = Some 60 \<and>
   filter keep [(str ''a'', [])] = [] \<and>
   make_mo [(str ''a'', [])] =
     Inr [0xde, 0x12, 0x04, 0x95,  0, 0, 0, 0,  0, 0, 0, 0,  28, 0, 0, 0,
          28, 0, 0, 0,  0, 0, 0, 0,  28, 0, 0, 0]"
proof -
  have m: "make_mo example_pairs = Inr example_file"
    by (simp add: make_mo_def keep_def sort_pairs_def str_def utf8_char_def pack_I_def
        example_file_def example_pairs_def)
  have n: "2 = length (filter keep example_pairs)"
    by (simp add: keep_def example_pairs_def str_def)
  have e: "filter keep [(str ''a'', [])] = []"
    by (simp add: keep_def str_def)
  from header_layout[of example_pairs example_file 2] m n
    header_layout[of "[(str ''a'', [])]" "[]" 0] e
  show ?thesis by simp
qed

text \<open>
  C5. Offsets and lengths. Let \<open>qs\<close> be the sorted surviving pairs, \<open>kbs\<close> and \<open>vbs\<close> the
  encodings of their original and translated strings, and \<open>H = 28 + 16N\<close>. The file is
  \<open>H\<close> bytes of header and tables followed by every original string with one NUL and
  then every translated string with one NUL, in table order, and nothing else. Entry
  \<open>i\<close> of either table holds the byte length of its string and the position of its
  first byte; the bytes there are the string, and a NUL follows them.
\<close>

theorem offset_length_exact:
  "make_mo ps0 = Inr file \<Longrightarrow>
   \<exists>qs kbs vbs.
     sort_pairs (filter keep ps0) = Inr qs \<and>
     encode_all (map fst qs) = Inr kbs \<and> encode_all (map snd qs) = Inr vbs \<and>
     length kbs = length qs \<and> length vbs = length qs \<and>
     length file = 28 + 16 * length qs + data_size kbs + data_size vbs \<and>
     drop (28 + 16 * length qs) file = strdata kbs @ strdata vbs \<and>
     (\<forall>i<length qs.
        encode (fst (qs ! i)) = Inr (kbs ! i) \<and>
        u32_at file (28 + 8 * i) = Some (length (kbs ! i)) \<and>
        u32_at file (28 + 8 * i + 4) = Some (28 + 16 * length qs + data_size (take i kbs)) \<and>
        take (length (kbs ! i)) (drop (28 + 16 * length qs + data_size (take i kbs)) file)
          = kbs ! i \<and>
        file ! (28 + 16 * length qs + data_size (take i kbs) + length (kbs ! i)) = 0 \<and>
        encode (snd (qs ! i)) = Inr (vbs ! i) \<and>
        u32_at file (28 + 8 * length qs + 8 * i) = Some (length (vbs ! i)) \<and>
        u32_at file (28 + 8 * length qs + 8 * i + 4) =
          Some (28 + 16 * length qs + data_size kbs + data_size (take i vbs)) \<and>
        take (length (vbs ! i))
          (drop (28 + 16 * length qs + data_size kbs + data_size (take i vbs)) file) = vbs ! i \<and>
        file ! (28 + 16 * length qs + data_size kbs + data_size (take i vbs) + length (vbs ! i))
          = 0)"
proof -
  assume m: "make_mo ps0 = Inr file"
  from make_mo_Inr[OF m] obtain qs kbs vbs where
    p: "sort_pairs (filter keep ps0) = Inr qs"
      "encode_all (map fst qs) = Inr kbs" "encode_all (map snd qs) = Inr vbs"
      "file = mo_bytes kbs vbs"
      "fits32 (metas (data_H (length qs)) kbs)"
      "fits32 (metas (data_H (length qs) + data_size kbs) vbs)"
    by blast
  have lk: "length kbs = length qs" using encode_all_length[OF p(2)] by simp
  have lv: "length vbs = length qs" using encode_all_length[OF p(3)] by simp
  have lvk: "length vbs = length kbs" using lk lv by simp
  have fk: "fits32 (metas (data_H (length kbs)) kbs)" using p(5) lk by simp
  have fv: "fits32 (metas (data_H (length kbs) + data_size kbs) vbs)" using p(6) lk by simp
  have len: "length file = 28 + 16 * length qs + data_size kbs + data_size vbs"
    unfolding p(4) using length_mo_bytes[OF lvk] lk by (simp add: data_H_eq)
  have dr: "drop (28 + 16 * length qs) file = strdata kbs @ strdata vbs"
    unfolding p(4) using drop_H_mo_bytes[OF lvk] lk by (simp add: data_H_eq)
  have ent: "\<forall>i<length qs.
        encode (fst (qs ! i)) = Inr (kbs ! i) \<and>
        u32_at file (28 + 8 * i) = Some (length (kbs ! i)) \<and>
        u32_at file (28 + 8 * i + 4) = Some (28 + 16 * length qs + data_size (take i kbs)) \<and>
        take (length (kbs ! i)) (drop (28 + 16 * length qs + data_size (take i kbs)) file)
          = kbs ! i \<and>
        file ! (28 + 16 * length qs + data_size (take i kbs) + length (kbs ! i)) = 0 \<and>
        encode (snd (qs ! i)) = Inr (vbs ! i) \<and>
        u32_at file (28 + 8 * length qs + 8 * i) = Some (length (vbs ! i)) \<and>
        u32_at file (28 + 8 * length qs + 8 * i + 4) =
          Some (28 + 16 * length qs + data_size kbs + data_size (take i vbs)) \<and>
        take (length (vbs ! i))
          (drop (28 + 16 * length qs + data_size kbs + data_size (take i vbs)) file) = vbs ! i \<and>
        file ! (28 + 16 * length qs + data_size kbs + data_size (take i vbs) + length (vbs ! i))
          = 0"
  proof (intro allI impI)
    fix i assume i: "i < length qs"
    have ik: "i < length kbs" and iv: "i < length vbs" using i lk lv by simp_all
    note k = mo_key_entry[OF ik fk lvk, folded p(4), unfolded data_H_eq table_T_eq lk]
    note v = mo_val_entry[OF iv lvk fv, folded p(4), unfolded data_H_eq table_T_eq lk]
    have ek: "encode (fst (qs ! i)) = Inr (kbs ! i)"
      using encode_all_nth[OF p(2), of i] i by simp
    have ev: "encode (snd (qs ! i)) = Inr (vbs ! i)"
      using encode_all_nth[OF p(3), of i] i by simp
    from ek ev k(1-4) v(1-4)
    show "encode (fst (qs ! i)) = Inr (kbs ! i) \<and>
        u32_at file (28 + 8 * i) = Some (length (kbs ! i)) \<and>
        u32_at file (28 + 8 * i + 4) = Some (28 + 16 * length qs + data_size (take i kbs)) \<and>
        take (length (kbs ! i)) (drop (28 + 16 * length qs + data_size (take i kbs)) file)
          = kbs ! i \<and>
        file ! (28 + 16 * length qs + data_size (take i kbs) + length (kbs ! i)) = 0 \<and>
        encode (snd (qs ! i)) = Inr (vbs ! i) \<and>
        u32_at file (28 + 8 * length qs + 8 * i) = Some (length (vbs ! i)) \<and>
        u32_at file (28 + 8 * length qs + 8 * i + 4) =
          Some (28 + 16 * length qs + data_size kbs + data_size (take i vbs)) \<and>
        take (length (vbs ! i))
          (drop (28 + 16 * length qs + data_size kbs + data_size (take i vbs)) file) = vbs ! i \<and>
        file ! (28 + 16 * length qs + data_size kbs + data_size (take i vbs) + length (vbs ! i))
          = 0"
      by (intro conjI)
  qed
  from p(1,2,3) lk lv len dr ent show ?thesis by blast
qed

theorem offset_length_exact_witness:
  "make_mo [(str ''a'', str ''x''), (str ''b'', str ''x'')] = Inr duplicate_file \<and>
   (\<exists>qs kbs vbs.
     sort_pairs (filter keep [(str ''a'', str ''x''), (str ''b'', str ''x'')]) = Inr qs \<and>
     encode_all (map fst qs) = Inr kbs \<and> encode_all (map snd qs) = Inr vbs \<and>
     length kbs = length qs \<and> length vbs = length qs \<and>
     length duplicate_file = 28 + 16 * length qs + data_size kbs + data_size vbs \<and>
     drop (28 + 16 * length qs) duplicate_file = strdata kbs @ strdata vbs) \<and>
   length duplicate_file = 68 \<and>
   drop 60 duplicate_file = [0x61, 0, 0x62, 0, 0x78, 0, 0x78, 0] \<and>
   u32_at duplicate_file 44 = Some 1 \<and> u32_at duplicate_file 48 = Some 64 \<and>
   u32_at duplicate_file 52 = Some 1 \<and> u32_at duplicate_file 56 = Some 66"
proof -
  have m: "make_mo [(str ''a'', str ''x''), (str ''b'', str ''x'')] = Inr duplicate_file"
    by (simp add: make_mo_def keep_def sort_pairs_def str_def utf8_char_def pack_I_def
        duplicate_file_def)
  have r: "length duplicate_file = 68 \<and>
     drop 60 duplicate_file = [0x61, 0, 0x62, 0, 0x78, 0, 0x78, 0] \<and>
     u32_at duplicate_file 44 = Some 1 \<and> u32_at duplicate_file 48 = Some 64 \<and>
     u32_at duplicate_file 52 = Some 1 \<and> u32_at duplicate_file 56 = Some 66"
    by (simp add: duplicate_file_def u32_at_def)
  from offset_length_exact[OF m] m r show ?thesis by blast
qed

section \<open>When make_mo returns\<close>

text \<open>
  \<^verbatim>\<open>make_mo\<close> raises only on a string with a surrogate code point or on a file that
  does not fit 32-bit offsets. The strings \<^verbatim>\<open>parse_po\<close> returns for a text of Unicode
  scalar values are free of surrogates, so on a parsed catalog below that size
  \<^verbatim>\<open>make_mo\<close> returns a file.
\<close>

lemma encodable_Cons:
  "encodable (c # s) \<longleftrightarrow> c < 0x110000 \<and> \<not> (0xD800 \<le> c \<and> c \<le> 0xDFFF) \<and> encodable s"
  by (simp add: encodable_def)

lemma utf8_char_encodable:
  "c < 0x110000 \<Longrightarrow> \<not> (0xD800 \<le> c \<and> c \<le> 0xDFFF) \<Longrightarrow>
   \<exists>bc. utf8_char c = Inr bc \<and>
     length bc = (if c < 0x80 then 1 else if c < 0x800 then 2 else if c < 0x10000 then 3 else 4)"
  by (simp add: utf8_char_def)

lemma encode_encodable:
  "encodable s \<Longrightarrow> \<exists>b. encode s = Inr b \<and> length b = utf8_length s"
proof (induction s)
  case Nil
  then show ?case by (simp add: utf8_length_def)
next
  case (Cons c s)
  then obtain b where b: "encode s = Inr b" "length b = utf8_length s"
    by (auto simp add: encodable_Cons)
  from Cons.prems have c: "c < 0x110000" "\<not> (0xD800 \<le> c \<and> c \<le> 0xDFFF)"
    by (simp_all add: encodable_Cons)
  from utf8_char_encodable[OF c] obtain bc where bc: "utf8_char c = Inr bc"
    "length bc = (if c < 0x80 then 1 else if c < 0x800 then 2 else if c < 0x10000 then 3 else 4)"
    by blast
  show ?case using b bc by (simp add: utf8_length_def)
qed

lemma encode_all_encodable:
  "\<forall>s\<in>set ss. encodable s \<Longrightarrow>
   \<exists>bs. encode_all ss = Inr bs \<and> data_size bs = sum_list (map (\<lambda>s. utf8_length s + 1) ss)"
proof (induction ss)
  case Nil
  then show ?case by simp
next
  case (Cons s ss)
  then obtain bs where bs: "encode_all ss = Inr bs"
    "data_size bs = sum_list (map (\<lambda>s. utf8_length s + 1) ss)" by auto
  from Cons.prems encode_encodable[of s] obtain b where
    b: "encode s = Inr b" "length b = utf8_length s" by auto
  show ?case using bs b by simp
qed

lemma metas_bound:
  "(len, off) \<in> set (metas pos bs) \<Longrightarrow> off + len < pos + data_size bs"
proof (induction bs arbitrary: pos)
  case Nil
  then show ?case by simp
next
  case (Cons b bs)
  from Cons.prems have "(len, off) = (length b, pos) \<or> (len, off) \<in> set (metas (pos + length b + 1) bs)"
    by simp
  then show ?case
  proof
    assume "(len, off) = (length b, pos)"
    then show ?thesis by simp
  next
    assume "(len, off) \<in> set (metas (pos + length b + 1) bs)"
    from Cons.IH[OF this] show ?thesis by simp
  qed
qed

lemma fits32_metas:
  assumes "pos + data_size bs \<le> 2 ^ 32"
  shows "fits32 (metas pos bs)"
  unfolding fits32_def
proof (intro ballI, clarify)
  fix len off
  assume "(len, off) \<in> set (metas pos bs)"
  from metas_bound[OF this] assms show "len < 2 ^ 32 \<and> off < 2 ^ 32" by simp
qed

lemma sum_list_mset_cong:
  fixes f :: "'a \<Rightarrow> nat"
  assumes "mset qs = mset ps"
  shows "sum_list (map f qs) = sum_list (map f ps)"
proof -
  have "mset (map f qs) = mset (map f ps)" using assms by simp
  then have "sum_mset (mset (map f qs)) = sum_mset (mset (map f ps))" by (rule arg_cong)
  then show ?thesis by (simp only: sum_mset_sum_list)
qed

lemma mo_size_mset: "mset qs = mset ps \<Longrightarrow> mo_size qs = mo_size ps"
  unfolding mo_size_def by (simp only: sum_list_mset_cong[of qs ps])

lemma mo_size_split:
  "mo_size qs = 28 + 16 * length qs + sum_list (map (\<lambda>s. utf8_length s + 1) (map fst qs)) +
                sum_list (map (\<lambda>s. utf8_length s + 1) (map snd qs))"
  unfolding mo_size_def by (induction qs) auto

lemma make_mo_returns:
  assumes enc: "\<forall>(k, v)\<in>set (filter keep ps0). encodable k \<and> encodable v"
    and size: "mo_size (filter keep ps0) < 2 ^ 32"
  shows "\<exists>file. make_mo ps0 = Inr file \<and> length file = mo_size (filter keep ps0)"
proof -
  let ?ps = "filter keep ps0"
  have "\<forall>s\<in>set (map fst ?ps). encodable s" using enc by auto
  from encode_all_encodable[OF this] obtain kbs0 where "encode_all (map fst ?ps) = Inr kbs0"
    by blast
  then obtain qs where qs: "sort_pairs ?ps = Inr qs"
    by (simp add: sort_pairs_def encode_keys_eq)
  from sort_pairs_Inr(1)[OF qs] have ms: "mset qs = mset ?ps" .
  then have st: "set qs = set ?ps" by (rule mset_eq_setD)
  have ek: "\<forall>s\<in>set (map fst qs). encodable s" and ev: "\<forall>s\<in>set (map snd qs). encodable s"
    using enc st by auto
  from encode_all_encodable[OF ek] obtain kbs where
    kb: "encode_all (map fst qs) = Inr kbs"
      "data_size kbs = sum_list (map (\<lambda>s. utf8_length s + 1) (map fst qs))" by blast
  from encode_all_encodable[OF ev] obtain vbs where
    vb: "encode_all (map snd qs) = Inr vbs"
      "data_size vbs = sum_list (map (\<lambda>s. utf8_length s + 1) (map snd qs))" by blast
  have total: "mo_size ?ps = data_H (length qs) + data_size kbs + data_size vbs"
    using mo_size_mset[OF ms] mo_size_split[of qs] kb(2) vb(2) by (simp add: data_H_eq)
  have h: "data_H (length qs) < 2 ^ 32" using size total by simp
  have fk: "fits32 (metas (data_H (length qs)) kbs)"
    using size total by (intro fits32_metas) simp
  have fv: "fits32 (metas (data_H (length qs) + data_size kbs) vbs)"
    using size total by (intro fits32_metas) simp
  have lvk: "length vbs = length kbs"
    using encode_all_length[OF kb(1)] encode_all_length[OF vb(1)] by simp
  have lk: "length kbs = length qs" using encode_all_length[OF kb(1)] by simp
  have m: "make_mo ps0 = Inr (mo_bytes kbs vbs)"
    using h fk fv by (simp add: make_mo_from_sorted[OF qs] kb(1) vb(1))
  have "length (mo_bytes kbs vbs) = mo_size ?ps"
    using length_mo_bytes[OF lvk] total lk by simp
  with m show ?thesis by blast
qed

lemma encodable_subset: "set t \<subseteq> set s \<Longrightarrow> encodable s \<Longrightarrow> encodable t"
  by (auto simp add: encodable_def)

lemma encodable_append: "encodable (s @ t) \<longleftrightarrow> encodable s \<and> encodable t"
  by (auto simp add: encodable_def)

lemma encodable_escape_value: "encodable [d] \<Longrightarrow> encodable (escape_value d)"
  by (simp add: escape_value_def encodable_def)

lemma encodable_unescape_list: "encodable s \<Longrightarrow> encodable (unescape_list s)"
proof (induction s rule: unescape_list.induct)
  case 1
  then show ?case by simp
next
  case (2 c)
  then show ?case by simp
next
  case (3 c d rest)
  from "3.prems" have p: "encodable [c]" "encodable [d]" "encodable rest" "encodable (d # rest)"
    by (simp_all add: encodable_def)
  show ?case
  proof (cases "c = BACKSLASH")
    case True
    with 3 p show ?thesis by (simp add: encodable_append encodable_escape_value)
  next
    case False
    with 3 p have "encodable (unescape_list (d # rest))" by simp
    with False p(1) show ?thesis by (simp add: encodable_def)
  qed
qed

lemma encodable_rstrip: "encodable s \<Longrightarrow> encodable (rstrip s cs)"
proof -
  have "set (rstrip s cs) \<subseteq> set s"
    unfolding rstrip_def using set_dropWhileD[of _ "\<lambda>c. c \<in> set cs" "rev s"] by auto
  then show "encodable s \<Longrightarrow> encodable (rstrip s cs)" by (rule encodable_subset)
qed

lemma encodable_payload: "encodable s \<Longrightarrow> encodable (unescape_list (drop n (butlast s)))"
proof -
  assume e: "encodable s"
  have "set (drop n (butlast s)) \<subseteq> set s"
    by (meson in_set_butlastD in_set_dropD subsetI)
  from encodable_subset[OF this e] show ?thesis by (rule encodable_unescape_list)
qed

lemma save_encodable: "state_encodable st \<Longrightarrow> state_encodable (save st)"
  by (auto simp add: state_encodable_def save_def split: option.splits)

lemma parse_line_encodable:
  assumes "state_encodable st" "encodable raw" "parse_line st raw = Inr st'"
  shows "state_encodable st'"
proof -
  have l: "encodable (rstrip raw [CR, LF])" using assms(2) by (rule encodable_rstrip)
  note pl = encodable_payload[OF l]
  show ?thesis
  proof (cases raw rule: line_cases)
    case msgid
    from save_encodable[OF assms(1)] assms(3) pl[of 7] show ?thesis
      by (auto simp add: parse_line_msgid[OF msgid] state_encodable_def)
  next
    case msgstr
    from assms(1,3) pl[of 8] show ?thesis
      by (auto simp add: parse_line_msgstr[OF msgstr(1)] state_encodable_def)
  next
    case cont
    from assms(1,3) pl[of 1] show ?thesis
      by (auto simp add: parse_line_cont[OF cont(1)] state_encodable_def Let_def encodable_append
          split: if_splits option.splits)
  next
    case other
    with assms(1,3) show ?thesis by (simp add: parse_line_other)
  qed
qed

lemma parse_lines_encodable:
  "state_encodable st \<Longrightarrow> \<forall>l\<in>set ls. encodable l \<Longrightarrow> parse_lines st ls = Inr st' \<Longrightarrow>
   state_encodable st'"
proof (induction ls arbitrary: st)
  case Nil
  then show ?case by simp
next
  case (Cons raw ls)
  from Cons.prems(3) obtain st1 where
    s1: "parse_line st raw = Inr st1" "parse_lines st1 ls = Inr st'"
    by (auto split: sum.splits)
  from parse_line_encodable[OF Cons.prems(1) _ s1(1)] Cons.prems(2)
  have "state_encodable st1" by simp
  from Cons.IH[OF this _ s1(2)] Cons.prems(2) show ?case by simp
qed

lemma parse_po_encodable:
  assumes "\<forall>l\<in>set ls. encodable l" "parse_po ls = Inr ps"
  shows "\<forall>(k, v)\<in>set ps. encodable k \<and> encodable v"
proof -
  from assms(2) obtain st where
    st: "parse_lines init_state ls = Inr st" "ps = pairs (save st)"
    by (auto simp add: parse_po_def split: sum.splits)
  have "state_encodable init_state" by (simp add: state_encodable_def init_state_def)
  from parse_lines_encodable[OF this assms(1) st(1)] have "state_encodable (save st)"
    by (rule save_encodable)
  then show ?thesis by (simp add: st(2) state_encodable_def)
qed

lemma parse_then_make_mo:
  assumes "\<forall>l\<in>set ls. encodable l"
  shows "\<exists>ps. parse_po ls = Inr ps \<and>
          (mo_size (filter keep ps) < 2 ^ 32 \<longrightarrow>
             (\<exists>file. make_mo ps = Inr file \<and> length file = mo_size (filter keep ps)))"
proof -
  from parse_po_total[of ls] obtain ps where ps: "parse_po ls = Inr ps" by blast
  from parse_po_encodable[OF assms ps]
  have "\<forall>(k, v)\<in>set (filter keep ps). encodable k \<and> encodable v" by auto
  from make_mo_returns[OF this] ps show ?thesis by blast
qed

end
